theory Spec2Isabelle
  imports Complex_Main
begin

section \<open>Strings, errors and JSON values\<close>

text \<open>
  A JavaScript string is a sequence of UTF-16 code units. Code units are natural numbers
  here; every string of the program has code units below 65536, and the definitions
  below are total on all lists. \<open>js\<close> turns a literal into its code units.
\<close>

type_synonym jsstring = "nat list"

definition js :: "string \<Rightarrow> jsstring" where
  "js s = map of_char s"

text \<open>The exceptions the modelled code can meet.\<close>

datatype error =
    InvalidCharacterError  \<comment> \<open>\<open>btoa\<close> and \<open>atob\<close>\<close>
  | URIError               \<comment> \<open>\<open>encodeURIComponent\<close> on a lone surrogate\<close>
  | TypeError              \<comment> \<open>property read on \<open>null\<close>/\<open>undefined\<close>, call of a non-function\<close>
  | SyntaxError            \<comment> \<open>\<open>JSON.parse\<close>, \<open>response.json()\<close>\<close>
  | NetworkError           \<comment> \<open>\<open>fetch\<close> rejects: the request never completed\<close>
  | StoreFailed            \<comment> \<open>\<open>new Error('Failed to store on dweet.cc')\<close>\<close>

text \<open>
  The values \<open>JSON.stringify\<close> takes and \<open>JSON.parse\<close> gives. A finite number is a
  rational: the doubles are the rationals that \<open>to_double\<close> below leaves unchanged, and the
  two zeros are one value, as \<open>==\<close> has it. The numbers that are not finite are apart. An
  object is the list of its members in the order JavaScript enumerates them.
\<close>

datatype nonfinite = NaN | PosInfinity | NegInfinity

datatype json =
    JNull
  | JBool bool
  | JNum rat
  | JNonFinite nonfinite
  | JStr jsstring
  | JArr "json list"
  | JObj "(jsstring \<times> json) list"

text \<open>
  What an expression can evaluate to besides a JSON value: \<open>undefined\<close> (a missing
  property) and a built-in function object (\<open>Array.prototype.with\<close>, which
  \<open>data.with\<close> reads when the response is an array).
\<close>

datatype jsval = Undefined | Builtin nat | Json json

fun truthy :: "jsval \<Rightarrow> bool" where
  "truthy Undefined = False"
| "truthy (Builtin n) = True"
| "truthy (Json JNull) = False"
| "truthy (Json (JBool b)) = b"
| "truthy (Json (JNum i)) = (i \<noteq> 0)"
| "truthy (Json (JNonFinite n)) = (n \<noteq> NaN)"
| "truthy (Json (JStr s)) = (s \<noteq> [])"
| "truthy (Json (JArr xs)) = True"
| "truthy (Json (JObj kvs)) = True"

definition own :: "(jsstring \<times> json) list \<Rightarrow> jsstring \<Rightarrow> jsval" where
  "own kvs k = (case map_of (rev kvs) k of None \<Rightarrow> Undefined | Some v \<Rightarrow> Json v)"

text \<open>
  \<open>v.k\<close> for the property names the program reads: \<open>with\<close>, \<open>content\<close>, \<open>sdp\<close>,
  \<open>offer\<close>, \<open>candidate\<close>, \<open>sdpMLineIndex\<close>, \<open>sdpMid\<close>, \<open>timestamp\<close>, \<open>created\<close>.
  None of them is inherited by a string, number, boolean or plain object; an array
  inherits \<open>with\<close>, a function of two parameters. Reading a property of \<open>null\<close> or
  \<open>undefined\<close> throws.
\<close>

fun get_prop :: "jsval \<Rightarrow> jsstring \<Rightarrow> error + jsval" where
  "get_prop Undefined k = Inl TypeError"
| "get_prop (Json JNull) k = Inl TypeError"
| "get_prop (Json (JObj kvs)) k = Inr (own kvs k)"
| "get_prop (Json (JArr xs)) k = Inr (if k = js ''with'' then Builtin 2 else Undefined)"
| "get_prop v k = Inr Undefined"

text \<open>\<open>v[0]\<close>: the first element of an array, the first character of a string, the
  member \<open>"0"\<close> of an object.\<close>

fun get_index0 :: "jsval \<Rightarrow> error + jsval" where
  "get_index0 Undefined = Inl TypeError"
| "get_index0 (Json JNull) = Inl TypeError"
| "get_index0 (Json (JArr xs)) = Inr (case xs of [] \<Rightarrow> Undefined | x # _ \<Rightarrow> Json x)"
| "get_index0 (Json (JStr s)) = Inr (case s of [] \<Rightarrow> Undefined | c # _ \<Rightarrow> Json (JStr [c]))"
| "get_index0 (Json (JObj kvs)) = Inr (own kvs (js ''0''))"
| "get_index0 v = Inr Undefined"

section \<open>The platform's base64: \<open>btoa\<close> and \<open>atob\<close>\<close>

definition b64_char :: "nat \<Rightarrow> nat" where
  "b64_char i =
     (if i < 26 then 65 + i
      else if i < 52 then 97 + (i - 26)
      else if i < 62 then 48 + (i - 52)
      else if i = 62 then 43
      else 47)"

definition b64_index :: "nat \<Rightarrow> nat option" where
  "b64_index c =
     (if 65 \<le> c \<and> c \<le> 90 then Some (c - 65)
      else if 97 \<le> c \<and> c \<le> 122 then Some (c - 71)
      else if 48 \<le> c \<and> c \<le> 57 then Some (c + 4)
      else if c = 43 then Some 62
      else if c = 47 then Some 63
      else None)"

fun b64_encode :: "nat list \<Rightarrow> jsstring" where
  "b64_encode [] = []"
| "b64_encode [a] = [b64_char (a div 4), b64_char ((a mod 4) * 16), 61, 61]"
| "b64_encode [a, b] =
     [b64_char (a div 4), b64_char ((a mod 4) * 16 + b div 16), b64_char ((b mod 16) * 4), 61]"
| "b64_encode (a # b # c # r) =
     b64_char (a div 4) # b64_char ((a mod 4) * 16 + b div 16) #
     b64_char ((b mod 16) * 4 + c div 64) # b64_char (c mod 64) # b64_encode r"

text \<open>\<open>btoa\<close> throws on a code unit above 0xFF and otherwise encodes the code units as
  bytes.\<close>

definition btoa :: "jsstring \<Rightarrow> error + jsstring" where
  "btoa s = (if \<exists>c \<in> set s. 255 < c then Inl InvalidCharacterError else Inr (b64_encode s))"

definition ascii_whitespace :: "nat \<Rightarrow> bool" where
  "ascii_whitespace c = (c = 9 \<or> c = 10 \<or> c = 12 \<or> c = 13 \<or> c = 32)"

definition strip_padding :: "jsstring \<Rightarrow> jsstring" where
  "strip_padding d =
     (if d \<noteq> [] \<and> last d = 61
      then (let d' = butlast d in if d' \<noteq> [] \<and> last d' = 61 then butlast d' else d')
      else d)"

fun b64_decode :: "nat list \<Rightarrow> nat list" where
  "b64_decode (p # q # r # s # rest) =
     (p * 4 + q div 16) # ((q mod 16) * 16 + r div 4) # ((r mod 4) * 64 + s) # b64_decode rest"
| "b64_decode [p, q, r] = [p * 4 + q div 16, (q mod 16) * 16 + r div 4]"
| "b64_decode [p, q] = [p * 4 + q div 16]"
| "b64_decode _ = []"

text \<open>
  \<open>atob\<close> is the forgiving base64 decoder: ASCII whitespace is removed; when the length is
  a multiple of 4, one or two trailing \<open>=\<close> are removed; a length of 1 modulo 4 and any
  character outside the alphabet fail.
\<close>

definition atob :: "jsstring \<Rightarrow> error + jsstring" where
  "atob data =
     (let d1 = filter (\<lambda>c. \<not> ascii_whitespace c) data;
          d2 = (if length d1 mod 4 = 0 then strip_padding d1 else d1)
      in if length d2 mod 4 = 1 then Inl InvalidCharacterError
         else (case those (map b64_index d2) of
                 None \<Rightarrow> Inl InvalidCharacterError
               | Some sextets \<Rightarrow> Inr (b64_decode sextets)))"

section \<open>The platform's \<open>JSON.stringify\<close> and \<open>JSON.parse\<close>\<close>

definition is_high_surrogate :: "nat \<Rightarrow> bool" where
  "is_high_surrogate c = (55296 \<le> c \<and> c \<le> 56319)"

definition is_low_surrogate :: "nat \<Rightarrow> bool" where
  "is_low_surrogate c = (56320 \<le> c \<and> c \<le> 57343)"

definition hex_lower :: "nat \<Rightarrow> nat" where
  "hex_lower n = (if n < 10 then 48 + n else 87 + n)"

definition unicode_escape :: "nat \<Rightarrow> jsstring" where
  "unicode_escape c =
     [92, 117, hex_lower (c div 4096 mod 16), hex_lower (c div 256 mod 16),
      hex_lower (c div 16 mod 16), hex_lower (c mod 16)]"

text \<open>The escape of one code point that is not a surrogate pair (QuoteJSONString).\<close>

definition json_escape :: "nat \<Rightarrow> jsstring" where
  "json_escape c =
     (if c = 8 then [92, 98]
      else if c = 9 then [92, 116]
      else if c = 10 then [92, 110]
      else if c = 12 then [92, 102]
      else if c = 13 then [92, 114]
      else if c = 34 then [92, 34]
      else if c = 92 then [92, 92]
      else if c < 32 \<or> is_high_surrogate c \<or> is_low_surrogate c then unicode_escape c
      else [c])"

fun quote_body :: "jsstring \<Rightarrow> jsstring" where
  "quote_body [] = []"
| "quote_body (c # cs) =
     (if is_high_surrogate c
      then (case cs of
              [] \<Rightarrow> json_escape c
            | d # ds \<Rightarrow>
                if is_low_surrogate d then c # d # quote_body ds
                else json_escape c @ quote_body cs)
      else json_escape c @ quote_body cs)"

definition quote :: "jsstring \<Rightarrow> jsstring" where
  "quote s = 34 # quote_body s @ [34]"

fun digits :: "nat \<Rightarrow> jsstring" where
  "digits n = (if n < 10 then [48 + n] else digits (n div 10) @ [48 + n mod 10])"

text \<open>
  The Number value of a real number (IEEE 754 binary64, round to nearest, ties to even):
  \<open>floor_log2\<close> is the binary exponent of a positive rational, clamped below at the
  exponent of the subnormal numbers; the unit in the last place is 52 binary digits
  further down; and a result of \<open>2 ^ 1024\<close> or more is infinity.
\<close>

definition round_half_even :: "rat \<Rightarrow> int" where
  "round_half_even x =
     (let f = \<lfloor>x\<rfloor>; d = x - of_int f
      in if d < 1 / 2 then f
         else if 1 / 2 < d then f + 1
         else if even f then f else f + 1)"

fun bit_length :: "nat \<Rightarrow> nat" where
  "bit_length n = (if n = 0 then 0 else Suc (bit_length (n div 2)))"

definition floor_log2 :: "rat \<Rightarrow> int" where
  "floor_log2 x =
     (if 1 \<le> x then int (bit_length (nat \<lfloor>x\<rfloor>)) - 1
      else - int (bit_length (nat (\<lceil>1 / x\<rceil> - 1))))"

definition round_positive :: "rat \<Rightarrow> rat option" where
  "round_positive x =
     (let e = max (floor_log2 x) (- 1022);
          u = 2 powi (e - 52);
          r = of_int (round_half_even (x / u)) * u
      in if 2 ^ 1024 \<le> r then None else Some r)"

definition to_double :: "rat \<Rightarrow> json" where
  "to_double x =
     (if x = 0 then JNum 0
      else if 0 < x then
        (case round_positive x of None \<Rightarrow> JNonFinite PosInfinity | Some r \<Rightarrow> JNum r)
      else
        (case round_positive (- x) of None \<Rightarrow> JNonFinite NegInfinity | Some r \<Rightarrow> JNum (- r)))"

text \<open>
  \<open>Number::toString\<close> for a positive number \<open>x\<close>: the decimal \<open>s * 10 ^ e\<close> with the fewest
  digits \<open>s\<close> whose Number value is \<open>x\<close>, and among those the one closest to \<open>x\<close>.
  \<open>S * 10 ^ (- j)\<close> is the exact decimal expansion of \<open>x\<close> (a double is a multiple of
  \<open>2 ^ (- 1074)\<close>, so \<open>j\<close> is at most 1074); the decimals of \<open>k\<close> digits next to \<open>x\<close> are
  the first \<open>k\<close> digits of \<open>S\<close> and that number plus one.
\<close>

fun exact_scale :: "nat \<Rightarrow> nat \<Rightarrow> rat \<Rightarrow> nat" where
  "exact_scale fuel j x =
     (if fuel = 0 \<or> of_int \<lfloor>x * 10 ^ j\<rfloor> = x * 10 ^ j then j
      else exact_scale (fuel - 1) (Suc j) x)"

definition candidates :: "rat \<Rightarrow> nat \<Rightarrow> nat \<Rightarrow> nat \<Rightarrow> (nat \<times> int) list" where
  "candidates x S j k =
     (let D = length (digits S);
          e = int (D - k) - int j;
          lo = S div 10 ^ (D - k);
          below = (lo, e);
          above = (if lo + 1 = 10 ^ k then (1, e + int k) else (lo + 1, e));
          a = x - of_nat lo * 10 powi e;
          b = of_nat (lo + 1) * 10 powi e - x
      in if a < b \<or> (a = b \<and> even lo) then [below, above] else [above, below])"

definition shortest :: "rat \<Rightarrow> nat \<times> int" where
  "shortest x =
     (let j = exact_scale 1074 0 x;
          S = nat \<lfloor>x * 10 ^ j\<rfloor>
      in case find (\<lambda>(s, e). to_double (of_nat s * 10 powi e) = JNum x)
                (concat (map (candidates x S j) [1 ..< Suc (length (digits S))])) of
           Some c \<Rightarrow> c
         | None \<Rightarrow> (S, - int j))"

text \<open>The four ways the digits are written out, by the position \<open>n\<close> of the decimal
  point: an integer, a decimal point inside the digits, \<open>0.\<close> and zeros before the digits,
  and the exponent form.\<close>

definition format_decimal :: "nat \<Rightarrow> int \<Rightarrow> jsstring" where
  "format_decimal s e =
     (let ds = digits s; k = int (length ds); n = e + k
      in if k \<le> n \<and> n \<le> 21 then ds @ replicate (nat (n - k)) 48
         else if 0 < n \<and> n \<le> 21 then take (nat n) ds @ 46 # drop (nat n) ds
         else if - 6 < n \<and> n \<le> 0 then 48 # 46 # replicate (nat (- n)) 48 @ ds
         else hd ds # (if k = 1 then [] else 46 # tl ds) @
              101 # (if 0 < n - 1 then 43 else 45) # digits (nat \<bar>n - 1\<bar>))"

definition number_to_string :: "rat \<Rightarrow> jsstring" where
  "number_to_string x =
     (if x = 0 then [48]
      else if x < 0 then 45 # (case shortest (- x) of (s, e) \<Rightarrow> format_decimal s e)
      else (case shortest x of (s, e) \<Rightarrow> format_decimal s e))"

fun JSON_stringify :: "json \<Rightarrow> jsstring"
  and stringify_elements :: "json list \<Rightarrow> jsstring"
  and stringify_members :: "(jsstring \<times> json) list \<Rightarrow> jsstring" where
  "JSON_stringify JNull = js ''null''"
| "JSON_stringify (JBool b) = (if b then js ''true'' else js ''false'')"
| "JSON_stringify (JNum i) = number_to_string i"
| "JSON_stringify (JNonFinite n) = js ''null''"
| "JSON_stringify (JStr s) = quote s"
| "JSON_stringify (JArr xs) = 91 # stringify_elements xs @ [93]"
| "JSON_stringify (JObj kvs) = 123 # stringify_members kvs @ [125]"
| "stringify_elements [] = []"
| "stringify_elements [x] = JSON_stringify x"
| "stringify_elements (x # y # ys) = JSON_stringify x @ 44 # stringify_elements (y # ys)"
| "stringify_members [] = []"
| "stringify_members [(k, v)] = quote k @ 58 # JSON_stringify v"
| "stringify_members ((k, v) # kv # kvs) =
     quote k @ 58 # JSON_stringify v @ 44 # stringify_members (kv # kvs)"

definition json_whitespace :: "nat \<Rightarrow> bool" where
  "json_whitespace c = (c = 32 \<or> c = 9 \<or> c = 10 \<or> c = 13)"

definition skip_ws :: "jsstring \<Rightarrow> jsstring" where
  "skip_ws s = dropWhile json_whitespace s"

definition hex_value :: "nat \<Rightarrow> nat option" where
  "hex_value c =
     (if 48 \<le> c \<and> c \<le> 57 then Some (c - 48)
      else if 97 \<le> c \<and> c \<le> 102 then Some (c - 87)
      else if 65 \<le> c \<and> c \<le> 70 then Some (c - 55)
      else None)"

definition hex4 :: "nat \<Rightarrow> nat \<Rightarrow> nat \<Rightarrow> nat \<Rightarrow> nat option" where
  "hex4 a b c d =
     (case (hex_value a, hex_value b, hex_value c, hex_value d) of
        (Some w, Some x, Some y, Some z) \<Rightarrow> Some (w * 4096 + x * 256 + y * 16 + z)
      | _ \<Rightarrow> None)"

definition unescape :: "nat \<Rightarrow> nat option" where
  "unescape e =
     (if e = 34 then Some 34
      else if e = 92 then Some 92
      else if e = 47 then Some 47
      else if e = 98 then Some 8
      else if e = 102 then Some 12
      else if e = 110 then Some 10
      else if e = 114 then Some 13
      else if e = 116 then Some 9
      else None)"

text \<open>The characters of a string literal after its opening quote, up to and including
  the closing quote: the decoded string and the rest of the input.\<close>

fun parse_chars :: "jsstring \<Rightarrow> (jsstring \<times> jsstring) option" where
  "parse_chars [] = None"
| "parse_chars (c # cs) =
     (if c = 34 then Some ([], cs)
      else if c = 92 then
        (case cs of
           [] \<Rightarrow> None
         | e # es \<Rightarrow>
             if e = 117 then
               (case es of
                  h1 # h2 # h3 # h4 # r \<Rightarrow>
                    (case hex4 h1 h2 h3 h4 of
                       None \<Rightarrow> None
                     | Some u \<Rightarrow>
                         (case parse_chars r of
                            None \<Rightarrow> None
                          | Some (s, r') \<Rightarrow> Some (u # s, r')))
                | _ \<Rightarrow> None)
             else
               (case unescape e of
                  None \<Rightarrow> None
                | Some u \<Rightarrow>
                    (case parse_chars es of
                       None \<Rightarrow> None
                     | Some (s, r') \<Rightarrow> Some (u # s, r'))))
      else if c < 32 then None
      else (case parse_chars cs of
              None \<Rightarrow> None
            | Some (s, r') \<Rightarrow> Some (c # s, r')))"

definition is_digit :: "nat \<Rightarrow> bool" where
  "is_digit c = (48 \<le> c \<and> c \<le> 57)"

definition digits_value :: "jsstring \<Rightarrow> nat" where
  "digits_value ds = foldl (\<lambda>a d. 10 * a + (d - 48)) 0 ds"

text \<open>
  A number literal: an optional minus sign, an integer part without a leading zero, an
  optional fraction and an optional exponent. Its value is the Number value of the decimal
  it denotes.
\<close>

definition parse_fraction :: "jsstring \<Rightarrow> (jsstring \<times> jsstring) option" where
  "parse_fraction s =
     (case s of
        [] \<Rightarrow> Some ([], s)
      | c # t \<Rightarrow>
          if c = 46 then
            (let fd = takeWhile is_digit t
             in if fd = [] then None else Some (fd, dropWhile is_digit t))
          else Some ([], s))"

definition parse_exponent :: "jsstring \<Rightarrow> (int \<times> jsstring) option" where
  "parse_exponent s =
     (case s of
        [] \<Rightarrow> Some (0, s)
      | c # t \<Rightarrow>
          if c = 101 \<or> c = 69 then
            (let neg = (t \<noteq> [] \<and> hd t = 45);
                 t1 = (if t \<noteq> [] \<and> (hd t = 43 \<or> hd t = 45) then tl t else t);
                 ed = takeWhile is_digit t1
             in if ed = [] then None
                else Some (if neg then - int (digits_value ed) else int (digits_value ed),
                           dropWhile is_digit t1))
          else Some (0, s))"

definition parse_number :: "jsstring \<Rightarrow> (json \<times> jsstring) option" where
  "parse_number s =
     (let neg = (s \<noteq> [] \<and> hd s = 45);
          s1 = (if neg then tl s else s);
          ip = takeWhile is_digit s1
      in if ip = [] then None
         else if hd ip = 48 \<and> 1 < length ip then None
         else (case parse_fraction (dropWhile is_digit s1) of
                 None \<Rightarrow> None
               | Some (fd, s2) \<Rightarrow>
                   (case parse_exponent s2 of
                      None \<Rightarrow> None
                    | Some (ex, s3) \<Rightarrow>
                        (let m = of_nat (digits_value (ip @ fd)) * 10 powi (ex - int (length fd))
                         in Some (to_double (if neg then - m else m), s3)))))"

text \<open>
  The object \<open>JSON.parse\<close> builds from the members of an object literal, one
  \<open>CreateDataProperty\<close> after the other: a key that is there already keeps its place and
  takes the new value; a new key that is an array index (a canonical numeric string below
  \<open>2 ^ 32 - 1\<close>) goes among the array indices, which are enumerated first and in
  ascending order; any other new key goes to the end.
\<close>

definition array_index :: "jsstring \<Rightarrow> nat option" where
  "array_index k =
     (if k \<noteq> [] \<and> list_all is_digit k \<and> (hd k = 48 \<longrightarrow> length k = 1) \<and>
         digits_value k < 4294967295
      then Some (digits_value k) else None)"

definition define_property ::
  "jsstring \<Rightarrow> json \<Rightarrow> (jsstring \<times> json) list \<Rightarrow> (jsstring \<times> json) list" where
  "define_property k v kvs =
     (if k \<in> fst ` set kvs then map (\<lambda>(k', v'). if k' = k then (k', v) else (k', v')) kvs
      else (case array_index k of
              None \<Rightarrow> kvs @ [(k, v)]
            | Some i \<Rightarrow>
                (let before = (\<lambda>(k', v'). case array_index k' of None \<Rightarrow> False | Some i' \<Rightarrow> i' < i)
                 in takeWhile before kvs @ (k, v) # dropWhile before kvs)))"

definition build_object :: "(jsstring \<times> json) list \<Rightarrow> (jsstring \<times> json) list" where
  "build_object members = foldl (\<lambda>obj (k, v). define_property k v obj) [] members"

definition expect :: "jsstring \<Rightarrow> jsstring \<Rightarrow> jsstring option" where
  "expect p s = (if take (length p) s = p then Some (drop (length p) s) else None)"

text \<open>
  Recursive descent over the JSON grammar. The first argument bounds the number of
  nested calls; \<open>JSON_parse\<close> starts it at twice the length of the text plus two, and
  every call but the first of a value consumes a character.
\<close>

fun parse_value :: "nat \<Rightarrow> jsstring \<Rightarrow> (json \<times> jsstring) option"
  and parse_elements :: "nat \<Rightarrow> jsstring \<Rightarrow> (json list \<times> jsstring) option"
  and parse_members :: "nat \<Rightarrow> jsstring \<Rightarrow> ((jsstring \<times> json) list \<times> jsstring) option" where
  "parse_value 0 s = None"
| "parse_value (Suc f) s =
     (case skip_ws s of
        [] \<Rightarrow> None
      | c # cs \<Rightarrow>
          if c = 110 then map_option (Pair JNull) (expect (js ''ull'') cs)
          else if c = 116 then map_option (Pair (JBool True)) (expect (js ''rue'') cs)
          else if c = 102 then map_option (Pair (JBool False)) (expect (js ''alse'') cs)
          else if c = 34 then
            (case parse_chars cs of None \<Rightarrow> None | Some (str, r) \<Rightarrow> Some (JStr str, r))
          else if c = 91 then
            (case skip_ws cs of
               [] \<Rightarrow> None
             | d # ds \<Rightarrow>
                 if d = 93 then Some (JArr [], ds)
                 else (case parse_elements f cs of
                         None \<Rightarrow> None
                       | Some (xs, r) \<Rightarrow> Some (JArr xs, r)))
          else if c = 123 then
            (case skip_ws cs of
               [] \<Rightarrow> None
             | d # ds \<Rightarrow>
                 if d = 125 then Some (JObj [], ds)
                 else (case parse_members f cs of
                         None \<Rightarrow> None
                       | Some (kvs, r) \<Rightarrow> Some (JObj (build_object kvs), r)))
          else parse_number (c # cs))"
| "parse_elements 0 s = None"
| "parse_elements (Suc f) s =
     (case parse_value f s of
        None \<Rightarrow> None
      | Some (v, r) \<Rightarrow>
          (case skip_ws r of
             [] \<Rightarrow> None
           | d # ds \<Rightarrow>
               if d = 44 then
                 (case parse_elements f ds of
                    None \<Rightarrow> None
                  | Some (vs, r') \<Rightarrow> Some (v # vs, r'))
               else if d = 93 then Some ([v], ds)
               else None))"
| "parse_members 0 s = None"
| "parse_members (Suc f) s =
     (case skip_ws s of
        [] \<Rightarrow> None
      | q # qs \<Rightarrow>
          if q \<noteq> 34 then None
          else
            (case parse_chars qs of
               None \<Rightarrow> None
             | Some (k, r) \<Rightarrow>
                 (case skip_ws r of
                    [] \<Rightarrow> None
                  | c # cs \<Rightarrow>
                      if c \<noteq> 58 then None
                      else
                        (case parse_value f cs of
                           None \<Rightarrow> None
                         | Some (v, r2) \<Rightarrow>
                             (case skip_ws r2 of
                                [] \<Rightarrow> None
                              | d # ds \<Rightarrow>
                                  if d = 44 then
                                    (case parse_members f ds of
                                       None \<Rightarrow> None
                                     | Some (kvs, r') \<Rightarrow> Some ((k, v) # kvs, r'))
                                  else if d = 125 then Some ([(k, v)], ds)
                                  else None)))))"

definition JSON_parse :: "jsstring \<Rightarrow> error + json" where
  "JSON_parse s =
     (case parse_value (2 * length s + 2) s of
        None \<Rightarrow> Inl SyntaxError
      | Some (v, r) \<Rightarrow> if skip_ws r = [] then Inr v else Inl SyntaxError)"

section \<open>SessionCodec: \<open>encodeSdp\<close> and \<open>decodeSdp\<close>\<close>

definition encodeSdp :: "json \<Rightarrow> error + jsstring" where
  "encodeSdp sdp = btoa (JSON_stringify sdp)"

text \<open>\<open>s.replace(/a/g, b)\<close> for single characters \<open>a\<close> and \<open>b\<close>.\<close>

definition replace_all :: "nat \<Rightarrow> nat \<Rightarrow> jsstring \<Rightarrow> jsstring" where
  "replace_all a b s = map (\<lambda>c. if c = a then b else c) s"

text \<open>
  The \<open>try\<close> block of \<open>decodeSdp\<close>. An argument that is not a string has no
  \<open>replace\<close> method, and the call throws.
\<close>

definition decodeSdp_try :: "jsval \<Rightarrow> error + json" where
  "decodeSdp_try encoded =
     (case encoded of
        Json (JStr e) \<Rightarrow>
          (let base64 = replace_all 95 47 (replace_all 45 43 e);
               padded = base64 @ replicate ((4 - length base64 mod 4) mod 4) 61
           in case atob padded of
                Inl err \<Rightarrow> Inl err
              | Inr text \<Rightarrow> JSON_parse text)
      | _ \<Rightarrow> Inl TypeError)"

text \<open>\<open>decodeSdp\<close> with its \<open>catch\<close>: the handler logs and returns \<open>null\<close>.\<close>

definition decodeSdp :: "jsval \<Rightarrow> error + json" where
  "decodeSdp encoded =
     (case decodeSdp_try encoded of
        Inl err \<Rightarrow> Inr JNull
      | Inr v \<Rightarrow> Inr v)"

section \<open>SessionIdGenerator\<close>

text \<open>
  \<open>Math.random().toString(36).substring(2, 8).toUpperCase()\<close>. The argument is the text of
  the random number in radix 36 (\<open>0.5\<close> is \<open>0.i\<close>); it is ASCII, where \<open>toUpperCase\<close>
  changes the letters \<open>a\<close> to \<open>z\<close> only.
\<close>

definition substring :: "nat \<Rightarrow> nat \<Rightarrow> jsstring \<Rightarrow> jsstring" where
  "substring start stop s = take (stop - start) (drop start s)"

definition toUpperCase :: "jsstring \<Rightarrow> jsstring" where
  "toUpperCase s = map (\<lambda>c. if 97 \<le> c \<and> c \<le> 122 then c - 32 else c) s"

definition generateSessionId :: "jsstring \<Rightarrow> jsstring" where
  "generateSessionId random_text = toUpperCase (substring 2 8 random_text)"

definition base36_upper :: "nat \<Rightarrow> bool" where
  "base36_upper c = ((48 \<le> c \<and> c \<le> 57) \<or> (65 \<le> c \<and> c \<le> 90))"

section \<open>RelayClient\<close>

subsection \<open>The platform's \<open>encodeURIComponent\<close>\<close>

definition uri_unreserved :: "nat \<Rightarrow> bool" where
  "uri_unreserved c =
     ((65 \<le> c \<and> c \<le> 90) \<or> (97 \<le> c \<and> c \<le> 122) \<or> (48 \<le> c \<and> c \<le> 57) \<or>
      c = 45 \<or> c = 95 \<or> c = 46 \<or> c = 33 \<or> c = 126 \<or> c = 42 \<or> c = 39 \<or> c = 40 \<or> c = 41)"

definition hex_upper :: "nat \<Rightarrow> nat" where
  "hex_upper n = (if n < 10 then 48 + n else 55 + n)"

definition percent :: "nat \<Rightarrow> jsstring" where
  "percent b = [37, hex_upper (b div 16), hex_upper (b mod 16)]"

definition utf8 :: "nat \<Rightarrow> nat list" where
  "utf8 cp =
     (if cp < 128 then [cp]
      else if cp < 2048 then [192 + cp div 64, 128 + cp mod 64]
      else if cp < 65536 then [224 + cp div 4096, 128 + cp div 64 mod 64, 128 + cp mod 64]
      else [240 + cp div 262144, 128 + cp div 4096 mod 64, 128 + cp div 64 mod 64,
            128 + cp mod 64])"

definition percent_encode :: "nat \<Rightarrow> jsstring" where
  "percent_encode cp = concat (map percent (utf8 cp))"

fun encodeURIComponent :: "jsstring \<Rightarrow> error + jsstring" where
  "encodeURIComponent [] = Inr []"
| "encodeURIComponent (c # cs) =
     (if uri_unreserved c then
        (case encodeURIComponent cs of Inl err \<Rightarrow> Inl err | Inr r \<Rightarrow> Inr (c # r))
      else if is_low_surrogate c then Inl URIError
      else if is_high_surrogate c then
        (case cs of
           [] \<Rightarrow> Inl URIError
         | d # ds \<Rightarrow>
             if is_low_surrogate d then
               (case encodeURIComponent ds of
                  Inl err \<Rightarrow> Inl err
                | Inr r \<Rightarrow>
                    Inr (percent_encode (65536 + (c - 55296) * 1024 + (d - 56320)) @ r))
             else Inl URIError)
      else
        (case encodeURIComponent cs of
           Inl err \<Rightarrow> Inl err
         | Inr r \<Rightarrow> Inr (percent_encode c @ r)))"

definition dweetProxyUrl :: "jsstring \<Rightarrow> error + jsstring" where
  "dweetProxyUrl u =
     (case encodeURIComponent u of
        Inl err \<Rightarrow> Inl err
      | Inr e \<Rightarrow> Inr (js ''https://corsproxy.org/?'' @ e))"

subsection \<open>The network\<close>

text \<open>
  A request as \<open>fetch\<close> receives it, and what the caller reads of a response: its \<open>ok\<close>
  flag and the outcome of \<open>response.json()\<close>. The relay is the environment: it answers
  the \<open>k\<close>-th request of a run, by a response or by a network failure. What the program
  does to the outside is recorded in a trace: the requests sent and the delays waited.
\<close>

record request =
  req_url :: jsstring
  req_method :: string
  req_headers :: "(string \<times> string) list"
  req_body :: "jsstring option"

record response =
  ok :: bool
  json_body :: "error + json"

type_synonym relay = "nat \<Rightarrow> request \<Rightarrow> error + response"

datatype effect = Fetch request | Sleep nat

type_synonym trace = "effect list"

fun is_fetch :: "effect \<Rightarrow> bool" where
  "is_fetch (Fetch r) = True"
| "is_fetch (Sleep n) = False"

definition fetch :: "relay \<Rightarrow> request \<Rightarrow> trace \<Rightarrow> (error + response) \<times> trace" where
  "fetch rl req tr = (rl (length (filter is_fetch tr)) req, tr @ [Fetch req])"

definition get_request :: "jsstring \<Rightarrow> request" where
  "get_request u = \<lparr>req_url = u, req_method = ''GET'', req_headers = [], req_body = None\<rparr>"

definition post_request :: "jsstring \<Rightarrow> jsstring \<Rightarrow> request" where
  "post_request body u =
     \<lparr>req_url = u, req_method = ''POST'',
      req_headers = [(''Content-Type'', ''application/json'')], req_body = Some body\<rparr>"

text \<open>
  The inner \<open>try\<close>/\<open>catch\<close> shared by the four relay functions: the request goes to the
  relay, and when that \<open>fetch\<close> throws, once more to the proxy URL. A failure of the second
  \<open>fetch\<close>, or of building the proxy URL, is thrown on.
\<close>

definition fetch_with_proxy ::
  "relay \<Rightarrow> (jsstring \<Rightarrow> request) \<Rightarrow> jsstring \<Rightarrow> trace \<Rightarrow> (error + response) \<times> trace" where
  "fetch_with_proxy rl mk u tr =
     (case fetch rl (mk u) tr of
        (Inr resp, tr1) \<Rightarrow> (Inr resp, tr1)
      | (Inl err, tr1) \<Rightarrow>
          (case dweetProxyUrl u of
             Inl err' \<Rightarrow> (Inl err', tr1)
           | Inr proxy \<Rightarrow> fetch rl (mk proxy) tr1))"

subsection \<open>\<open>storeSdpOnDweet\<close>\<close>

definition dweet_store_url :: "jsstring \<Rightarrow> jsstring" where
  "dweet_store_url thingName = js ''https://dweet.cc/dweet/for/'' @ thingName"

definition dweet_latest_url :: "jsstring \<Rightarrow> jsstring" where
  "dweet_latest_url thingName = js ''https://dweet.cc/get/latest/dweet/for/'' @ thingName"

definition sdp_body :: "jsstring \<Rightarrow> jsstring \<Rightarrow> rat \<Rightarrow> jsstring" where
  "sdp_body type enc now =
     JSON_stringify (JObj [(js ''type'', JStr type), (js ''sdp'', JStr enc),
                           (js ''timestamp'', JNum now)])"

text \<open>The outer \<open>try\<close> block of \<open>storeSdpOnDweet\<close>.\<close>

definition store_try :: "relay \<Rightarrow> jsstring \<Rightarrow> jsstring \<Rightarrow> trace \<Rightarrow> (error + bool) \<times> trace" where
  "store_try rl dweetUrl body tr =
     (case fetch_with_proxy rl (post_request body) dweetUrl tr of
        (Inl err, tr1) \<Rightarrow> (Inl err, tr1)
      | (Inr resp, tr1) \<Rightarrow> if \<not> ok resp then (Inl StoreFailed, tr1) else (Inr True, tr1))"

text \<open>
  \<open>storeSdpOnDweet\<close>: the body, with \<open>encodeSdp(sdp)\<close>, is built before the \<open>try\<close>, so
  an exception of \<open>encodeSdp\<close> leaves the function; the \<open>catch\<close> turns every exception of
  the block into \<open>false\<close>. \<open>now\<close> is \<open>Date.now()\<close>.
\<close>

definition storeSdpOnDweet ::
  "relay \<Rightarrow> rat \<Rightarrow> jsstring \<Rightarrow> json \<Rightarrow> jsstring \<Rightarrow> trace \<Rightarrow> (error + bool) \<times> trace" where
  "storeSdpOnDweet rl now sessionId sdp type tr =
     (let thingName = js ''colormatch-'' @ sessionId @ js ''-'' @ type;
          dweetUrl = dweet_store_url thingName
      in case encodeSdp sdp of
           Inl err \<Rightarrow> (Inl err, tr)
         | Inr enc \<Rightarrow>
             (case store_try rl dweetUrl (sdp_body type enc now) tr of
                (Inl err, tr1) \<Rightarrow> (Inr False, tr1)
              | (Inr b, tr1) \<Rightarrow> (Inr b, tr1)))"

subsection \<open>\<open>storeIceCandidateOnDweet\<close>\<close>

definition thenE :: "error + 'a \<Rightarrow> ('a \<Rightarrow> error + 'b) \<Rightarrow> error + 'b" where
  "thenE m f = (case m of Inl err \<Rightarrow> Inl err | Inr x \<Rightarrow> f x)"

text \<open>A value that a JSON object can hold: a property set to \<open>undefined\<close> or to a
  function is left out by \<open>JSON.stringify\<close>.\<close>

fun member :: "jsstring \<Rightarrow> jsval \<Rightarrow> (jsstring \<times> json) list" where
  "member k (Json v) = [(k, v)]"
| "member k v = []"

text \<open>
  The plain object \<open>candidateObj\<close>:
  \<open>candidate.candidate || candidate\<close>,
  \<open>candidate.sdpMLineIndex !== undefined ? candidate.sdpMLineIndex : null\<close>,
  \<open>candidate.sdpMid || null\<close>.
\<close>

definition candidateObj :: "jsval \<Rightarrow> error + json" where
  "candidateObj candidate =
     thenE (get_prop candidate (js ''candidate'')) (\<lambda>c.
     thenE (get_prop candidate (js ''sdpMLineIndex'')) (\<lambda>m.
     thenE (get_prop candidate (js ''sdpMid'')) (\<lambda>d.
       Inr (JObj (member (js ''candidate'') (if truthy c then c else candidate) @
                  member (js ''sdpMLineIndex'') (if m \<noteq> Undefined then m else Json JNull) @
                  member (js ''sdpMid'') (if truthy d then d else Json JNull))))))"

definition ice_body :: "json \<Rightarrow> rat \<Rightarrow> jsstring" where
  "ice_body obj now =
     JSON_stringify (JObj [(js ''candidate'', obj), (js ''timestamp'', JNum now)])"

definition ice_role :: "bool \<Rightarrow> jsstring" where
  "ice_role offerer = (if offerer then js ''offerer'' else js ''answerer'')"

definition storeIceCandidateOnDweet ::
  "relay \<Rightarrow> rat \<Rightarrow> jsstring \<Rightarrow> jsval \<Rightarrow> bool \<Rightarrow> trace \<Rightarrow> (error + bool) \<times> trace" where
  "storeIceCandidateOnDweet rl now sessionId candidate isOfferer tr =
     (let thingName = js ''colormatch-'' @ sessionId @ js ''-ice-'' @ ice_role isOfferer;
          dweetUrl = dweet_store_url thingName
      in case candidateObj candidate of
           Inl err \<Rightarrow> (Inr False, tr)
         | Inr obj \<Rightarrow>
             (case fetch_with_proxy rl (post_request (ice_body obj now)) dweetUrl tr of
                (Inl err, tr1) \<Rightarrow> (Inr False, tr1)
              | (Inr resp, tr1) \<Rightarrow> (Inr (ok resp), tr1)))"

subsection \<open>\<open>retrieveSdpFromDweet\<close>\<close>

text \<open>
  The lines that find the encoded description in the response:
  \<open>dweet = (data.with && data.with[0]) ? data.with[0] : data\<close>,
  \<open>content = (dweet && dweet.content) ? dweet.content : dweet\<close>,
  \<open>sdpEncoded = content && (content.sdp || content.offer)\<close>.
\<close>

definition find_sdp :: "jsval \<Rightarrow> error + jsval" where
  "find_sdp data =
     thenE (get_prop data (js ''with'')) (\<lambda>w.
     thenE (if truthy w then get_index0 w else Inr w) (\<lambda>w0.
     thenE (if truthy w0 then get_index0 w else Inr data) (\<lambda>dweet.
     thenE (if truthy dweet then get_prop dweet (js ''content'') else Inr dweet) (\<lambda>c0.
     thenE (if truthy c0 then get_prop dweet (js ''content'') else Inr dweet) (\<lambda>content.
       if truthy content then
         thenE (get_prop content (js ''sdp'')) (\<lambda>s.
           if truthy s then Inr s else get_prop content (js ''offer''))
       else Inr content)))))"

text \<open>How one pass through the body of the \<open>for\<close> loop ends, when it does not throw:
  by \<open>return\<close>, or by going on to the next attempt (\<open>continue\<close>, or the end of the
  \<open>try\<close> block).\<close>

datatype step = Return json | Next

text \<open>The \<open>try\<close> block of attempt number \<open>attempt\<close>, from the point where a response
  has arrived: the status check, \<open>response.json()\<close>, the search for the encoded
  description and its decoding.\<close>

definition retrieve_response ::
  "response \<Rightarrow> nat \<Rightarrow> nat \<Rightarrow> trace \<Rightarrow> (error + step) \<times> trace" where
  "retrieve_response resp maxRetries attempt tr1 =
     (if \<not> ok resp then
        (if attempt < maxRetries then (Inr Next, tr1 @ [Sleep 1500])
         else (Inr (Return JNull), tr1))
      else
        (case thenE (json_body resp) (\<lambda>data. find_sdp (Json data)) of
           Inl err \<Rightarrow> (Inl err, tr1)
         | Inr sdpEncoded \<Rightarrow>
             if truthy sdpEncoded then
               (case decodeSdp sdpEncoded of
                  Inl err \<Rightarrow> (Inl err, tr1)
                | Inr v \<Rightarrow> (Inr (Return v), tr1))
             else (Inr Next, tr1)))"

text \<open>The whole \<open>try\<close> block: the request, with the proxy as fallback, then the above.\<close>

definition retrieve_try ::
  "relay \<Rightarrow> jsstring \<Rightarrow> nat \<Rightarrow> nat \<Rightarrow> trace \<Rightarrow> (error + step) \<times> trace" where
  "retrieve_try rl u maxRetries attempt tr =
     (case fetch_with_proxy rl get_request u tr of
        (Inl err, tr1) \<Rightarrow> (Inl err, tr1)
      | (Inr resp, tr1) \<Rightarrow> retrieve_response resp maxRetries attempt tr1)"

text \<open>The loop \<open>for (attempt = 1; attempt <= maxRetries; attempt++)\<close> with its
  \<open>catch\<close>, and the \<open>return null\<close> after it.\<close>

function retrieve_loop ::
  "relay \<Rightarrow> jsstring \<Rightarrow> nat \<Rightarrow> nat \<Rightarrow> trace \<Rightarrow> (error + json) \<times> trace" where
  "retrieve_loop rl u maxRetries attempt tr =
     (if attempt \<le> maxRetries then
        (case retrieve_try rl u maxRetries attempt tr of
           (Inr (Return v), tr1) \<Rightarrow> (Inr v, tr1)
         | (Inr Next, tr1) \<Rightarrow> retrieve_loop rl u maxRetries (attempt + 1) tr1
         | (Inl err, tr1) \<Rightarrow>
             if attempt < maxRetries
             then retrieve_loop rl u maxRetries (attempt + 1) (tr1 @ [Sleep 1500])
             else (Inr JNull, tr1))
      else (Inr JNull, tr))"
  by pat_completeness auto
termination
  by (relation "measure (\<lambda>(rl, u, maxRetries, attempt, tr). Suc maxRetries - attempt)") auto

declare retrieve_loop.simps [simp del]

text \<open>\<open>retrieveSdpFromDweet(sessionId, type, maxRetries = 5)\<close>. The URL is built before
  the loop, outside every \<open>try\<close>.\<close>

definition retrieveSdpFromDweet ::
  "relay \<Rightarrow> jsstring \<Rightarrow> jsstring \<Rightarrow> nat \<Rightarrow> trace \<Rightarrow> (error + json) \<times> trace" where
  "retrieveSdpFromDweet rl sessionId type maxRetries tr =
     (case encodeURIComponent sessionId of
        Inl err \<Rightarrow> (Inl err, tr)
      | Inr sid \<Rightarrow>
          retrieve_loop rl (dweet_latest_url (js ''colormatch-'' @ sid @ js ''-'' @ type))
            maxRetries 1 tr)"

subsection \<open>\<open>retrieveIceCandidatesFromDweet\<close>\<close>

text \<open>\<open>v.length\<close>.\<close>

fun get_length :: "jsval \<Rightarrow> error + jsval" where
  "get_length Undefined = Inl TypeError"
| "get_length (Json JNull) = Inl TypeError"
| "get_length (Builtin n) = Inr (Json (JNum (of_nat n)))"
| "get_length (Json (JArr xs)) = Inr (Json (JNum (of_nat (length xs))))"
| "get_length (Json (JStr s)) = Inr (Json (JNum (of_nat (length s))))"
| "get_length (Json (JObj kvs)) = Inr (own kvs (js ''length''))"
| "get_length v = Inr Undefined"

text \<open>
  \<open>v > 0\<close>. \<open>undefined\<close> converts to NaN, \<open>null\<close> to 0, a boolean to 0 or 1, and so does
  a function (by its source text). For a string, an array or an object the platform
  converts by \<open>ToPrimitive\<close> and \<open>StringToNumber\<close>: that conversion is the parameter
  \<open>coerce\<close>.
\<close>

fun greater_than_zero :: "(json \<Rightarrow> error + bool) \<Rightarrow> jsval \<Rightarrow> error + bool" where
  "greater_than_zero coerce Undefined = Inr False"
| "greater_than_zero coerce (Builtin n) = Inr False"
| "greater_than_zero coerce (Json JNull) = Inr False"
| "greater_than_zero coerce (Json (JBool b)) = Inr b"
| "greater_than_zero coerce (Json (JNum i)) = Inr (0 < i)"
| "greater_than_zero coerce (Json (JNonFinite n)) = Inr (n = PosInfinity)"
| "greater_than_zero coerce (Json v) = coerce v"

text \<open>What \<open>retrieveIceCandidatesFromDweet\<close> returns: \<open>null\<close>, or an object with the two
  properties \<open>candidate\<close> and \<open>timestamp\<close>.\<close>

datatype ice_latest = Null | Latest jsval jsval

definition find_candidate :: "(json \<Rightarrow> error + bool) \<Rightarrow> jsval \<Rightarrow> error + ice_latest" where
  "find_candidate coerce data =
     thenE (get_prop data (js ''with'')) (\<lambda>w.
     thenE (if truthy w then thenE (get_length w) (greater_than_zero coerce) else Inr False)
       (\<lambda>nonempty.
       if nonempty then
         thenE (get_index0 w) (\<lambda>dweet.
         thenE (get_prop dweet (js ''content'')) (\<lambda>content.
         thenE (if truthy content
                then thenE (get_prop content (js ''candidate'')) (\<lambda>c. Inr (truthy c))
                else Inr False) (\<lambda>found.
           if found then
             thenE (get_prop content (js ''candidate'')) (\<lambda>c.
             thenE (get_prop content (js ''timestamp'')) (\<lambda>t.
             thenE (if truthy t then Inr t else get_prop dweet (js ''created'')) (\<lambda>ts.
               Inr (Latest c ts))))
           else Inr Null)))
       else Inr Null))"

definition ice_try ::
  "relay \<Rightarrow> (json \<Rightarrow> error + bool) \<Rightarrow> jsstring \<Rightarrow> trace \<Rightarrow> (error + ice_latest) \<times> trace" where
  "ice_try rl coerce u tr =
     (case fetch_with_proxy rl get_request u tr of
        (Inl err, tr1) \<Rightarrow> (Inl err, tr1)
      | (Inr resp, tr1) \<Rightarrow>
          if \<not> ok resp then (Inr Null, tr1)
          else (thenE (json_body resp) (\<lambda>data. find_candidate coerce (Json data)), tr1))"

definition retrieveIceCandidatesFromDweet ::
  "relay \<Rightarrow> (json \<Rightarrow> error + bool) \<Rightarrow> jsstring \<Rightarrow> bool \<Rightarrow> trace \<Rightarrow>
     (error + ice_latest) \<times> trace" where
  "retrieveIceCandidatesFromDweet rl coerce sessionId isOfferer tr =
     (let thingName = js ''colormatch-'' @ sessionId @ js ''-ice-'' @ ice_role (\<not> isOfferer);
          u = dweet_latest_url thingName
      in case ice_try rl coerce u tr of
           (Inl err, tr1) \<Rightarrow> (Inr Null, tr1)
         | (Inr r, tr1) \<Rightarrow> (Inr r, tr1))"

section \<open>ConnectionCoordinator: the class \<open>WebRTCConnection\<close>\<close>

text \<open>
  The engine (\<open>RTCPeerConnection\<close>) and its data channel are external. They are modelled
  by recording fakes: every call succeeds, changes the state the program reads back
  (\<open>localDescription\<close>, \<open>remoteDescription\<close>, \<open>iceGatheringState\<close>, \<open>readyState\<close>) and is
  appended to a log.
\<close>

datatype gathering_state = GatheringNew | Gathering | Complete

datatype ready_state = Connecting | Open | Closing | Closed

record channel =
  label :: jsstring
  ordered :: bool
  readyState :: ready_state
  written :: "jsstring list"

datatype engine_call =
    CreateDataChannel jsstring bool
  | CreateOffer
  | CreateAnswer
  | SetLocalDescription json
  | SetRemoteDescription json
  | AddIceCandidate json
  | ClosePc

record engine =
  iceServers :: "jsstring list"
  localDescription :: "json option"
  remoteDescription :: "json option"
  iceGatheringState :: gathering_state
  calls :: "engine_call list"

record WebRTCConnection =
  pc :: "engine option"
  dataChannel :: "channel option"
  isInitiator :: bool

definition constructor :: WebRTCConnection where
  "constructor = \<lparr>pc = None, dataChannel = None, isInitiator = False\<rparr>"

definition new_RTCPeerConnection :: engine where
  "new_RTCPeerConnection =
     \<lparr>iceServers = [js ''stun:stun.l.google.com:19302'', js ''stun:stun1.l.google.com:19302''],
      localDescription = None, remoteDescription = None,
      iceGatheringState = GatheringNew, calls = []\<rparr>"

definition call :: "engine_call \<Rightarrow> engine \<Rightarrow> engine" where
  "call c e = e\<lparr>calls := calls e @ [c]\<rparr>"

text \<open>\<open>addIceCandidate\<close>: \<open>if (this.pc && this.pc.remoteDescription)\<close>.\<close>

definition addIceCandidate :: "json \<Rightarrow> WebRTCConnection \<Rightarrow> WebRTCConnection" where
  "addIceCandidate candidate c =
     (case pc c of
        None \<Rightarrow> c
      | Some e \<Rightarrow>
          if remoteDescription e \<noteq> None
          then c\<lparr>pc := Some (call (AddIceCandidate candidate) e)\<rparr>
          else c)"

text \<open>\<open>setRemoteDescription\<close>: \<open>if (this.pc)\<close>.\<close>

definition setRemoteDescription :: "json \<Rightarrow> WebRTCConnection \<Rightarrow> WebRTCConnection" where
  "setRemoteDescription sdp c =
     (case pc c of
        None \<Rightarrow> c
      | Some e \<Rightarrow>
          c\<lparr>pc := Some (call (SetRemoteDescription sdp) (e\<lparr>remoteDescription := Some sdp\<rparr>))\<rparr>)"

text \<open>\<open>sendMessage\<close>: the channel's \<open>send\<close> is the write.\<close>

definition sendMessage :: "json \<Rightarrow> WebRTCConnection \<Rightarrow> bool \<times> WebRTCConnection" where
  "sendMessage data c =
     (case dataChannel c of
        None \<Rightarrow> (False, c)
      | Some ch \<Rightarrow>
          if readyState ch = Open
          then (True, c\<lparr>dataChannel := Some (ch\<lparr>written := written ch @ [JSON_stringify data]\<rparr>)\<rparr>)
          else (False, c))"

text \<open>
  What the engine does on its own while the program waits: a change of the gathering
  state, which fires \<open>onicegatheringstatechange\<close>, or an update of the local description
  (a gathered candidate), which does not. Each event comes with the milliseconds passed
  since the one before it.
\<close>

datatype engine_event = GatheringStateChange gathering_state | LocalDescriptionUpdate json

fun occur :: "engine_event \<Rightarrow> engine \<Rightarrow> engine" where
  "occur (GatheringStateChange g) e = e\<lparr>iceGatheringState := g\<rparr>"
| "occur (LocalDescriptionUpdate d) e = e\<lparr>localDescription := Some d\<rparr>"

fun fires_handler :: "engine_event \<Rightarrow> bool" where
  "fires_handler (GatheringStateChange g) = True"
| "fires_handler (LocalDescriptionUpdate d) = False"

text \<open>
  The pending promise of \<open>waitForIceGathering\<close>: a handler on the gathering state and a
  timer with \<open>remaining\<close> milliseconds to go. (\<open>checkState\<close> is defined and never called:
  no other timer exists.) The result is the time passed until \<open>resolve\<close> and the engine
  then. An event due at the same millisecond as the timer comes after it.
\<close>

fun await_gathering :: "nat \<Rightarrow> (nat \<times> engine_event) list \<Rightarrow> nat \<Rightarrow> engine \<Rightarrow> nat \<times> engine" where
  "await_gathering remaining [] elapsed e = (elapsed + remaining, e)"
| "await_gathering remaining ((dt, ev) # evs) elapsed e =
     (if remaining \<le> dt then (elapsed + remaining, e)
      else if fires_handler ev \<and> iceGatheringState (occur ev e) = Complete
      then (elapsed + dt, occur ev e)
      else await_gathering (remaining - dt) evs (elapsed + dt) (occur ev e))"

definition waitForIceGathering :: "(nat \<times> engine_event) list \<Rightarrow> engine \<Rightarrow> nat \<times> engine" where
  "waitForIceGathering evs e =
     (if iceGatheringState e = Complete then (0, e) else await_gathering 5000 evs 0 e)"

text \<open>
  \<open>initAsOfferer\<close>. \<open>offer\<close> is what the engine's \<open>createOffer\<close> resolves to and \<open>evs\<close>
  what the engine does after \<open>setLocalDescription\<close>. The result is the time spent in the
  gathering wait, the returned \<open>this.pc.localDescription\<close>, and the coordinator.
\<close>

definition initAsOfferer ::
  "json \<Rightarrow> (nat \<times> engine_event) list \<Rightarrow> WebRTCConnection \<Rightarrow>
     nat \<times> json option \<times> WebRTCConnection" where
  "initAsOfferer offer evs c =
     (let e1 = call (CreateDataChannel (js ''colors'') True) new_RTCPeerConnection;
          ch = \<lparr>label = js ''colors'', ordered = True, readyState = Connecting, written = []\<rparr>;
          e2 = call CreateOffer e1;
          e3 = call (SetLocalDescription offer) (e2\<lparr>localDescription := Some offer\<rparr>);
          (t, e4) = waitForIceGathering evs e3
      in (t, localDescription e4, c\<lparr>isInitiator := True, pc := Some e4, dataChannel := Some ch\<rparr>))"

text \<open>\<open>initAsAnswerer\<close>: the channel is accepted, not created; the remote offer is
  committed before the answer is made.\<close>

definition initAsAnswerer ::
  "json \<Rightarrow> json \<Rightarrow> (nat \<times> engine_event) list \<Rightarrow> WebRTCConnection \<Rightarrow>
     nat \<times> json option \<times> WebRTCConnection" where
  "initAsAnswerer offerSdp answer evs c =
     (let e1 = call (SetRemoteDescription offerSdp)
                 (new_RTCPeerConnection\<lparr>remoteDescription := Some offerSdp\<rparr>);
          e2 = call CreateAnswer e1;
          e3 = call (SetLocalDescription answer) (e2\<lparr>localDescription := Some answer\<rparr>);
          (t, e4) = waitForIceGathering evs e3
      in (t, localDescription e4, c\<lparr>isInitiator := False, pc := Some e4\<rparr>))"

section \<open>Observations used in the statements\<close>

text \<open>What has been written to the data channel, and whether it exists and is open.\<close>

definition writes :: "WebRTCConnection \<Rightarrow> jsstring list" where
  "writes c = (case dataChannel c of None \<Rightarrow> [] | Some ch \<Rightarrow> written ch)"

definition channel_open :: "WebRTCConnection \<Rightarrow> bool" where
  "channel_open c = (case dataChannel c of None \<Rightarrow> False | Some ch \<Rightarrow> readyState ch = Open)"

text \<open>The calls the engine has received, and whether it holds a remote description.\<close>

definition engine_calls :: "WebRTCConnection \<Rightarrow> engine_call list" where
  "engine_calls c = (case pc c of None \<Rightarrow> [] | Some e \<Rightarrow> calls e)"

definition remote_committed :: "WebRTCConnection \<Rightarrow> bool" where
  "remote_committed c = (case pc c of None \<Rightarrow> False | Some e \<Rightarrow> remoteDescription e \<noteq> None)"

text \<open>A coordinator whose channel has opened.\<close>

definition open_coordinator :: WebRTCConnection where
  "open_coordinator =
     \<lparr>pc = Some new_RTCPeerConnection,
      dataChannel = Some \<lparr>label = js ''colors'', ordered = True, readyState = Open, written = []\<rparr>,
      isInitiator = True\<rparr>"

text \<open>Relays for the concrete runs: one that answers every request with a success status
  and the JSON \<open>data\<close>, one that is unreachable, one that answers with an error status.\<close>

definition relay_ok :: "json \<Rightarrow> relay" where
  "relay_ok data = (\<lambda>k req. Inr \<lparr>ok = True, json_body = Inr data\<rparr>)"

definition relay_down :: relay where
  "relay_down = (\<lambda>k req. Inl NetworkError)"

definition relay_error_status :: relay where
  "relay_error_status = (\<lambda>k req. Inr \<lparr>ok = False, json_body = Inl SyntaxError\<rparr>)"

text \<open>
  Of a trace: the number of requests, the number of attempts of \<open>retrieveSdpFromDweet\<close>
  (each attempt starts with one request to the relay's own URL \<open>u\<close>), the delays, and
  whether every attempt after the first comes right after a delay of 1500 ms.
\<close>

definition fetch_count :: "trace \<Rightarrow> nat" where
  "fetch_count tr = length (filter is_fetch tr)"

definition attempts_of :: "jsstring \<Rightarrow> trace \<Rightarrow> nat" where
  "attempts_of u tr = length (filter (\<lambda>e. e = Fetch (get_request u)) tr)"

definition sleeps_of :: "trace \<Rightarrow> trace" where
  "sleeps_of tr = filter (\<lambda>e. \<not> is_fetch e) tr"

fun spaced :: "jsstring \<Rightarrow> trace \<Rightarrow> bool" where
  "spaced u (e # f # tr) = ((f = Fetch (get_request u) \<longrightarrow> e = Sleep 1500) \<and> spaced u (f # tr))"
| "spaced u tr = True"

text \<open>A request that failed: the \<open>fetch\<close> threw, or the status is not a success.\<close>

definition failed :: "error + response \<Rightarrow> bool" where
  "failed r = (case r of Inl err \<Rightarrow> True | Inr resp \<Rightarrow> \<not> ok resp)"

text \<open>The requests of one attempt: to the relay, and perhaps to the proxy.\<close>

definition attempt_requests :: "jsstring \<Rightarrow> request list \<Rightarrow> bool" where
  "attempt_requests u fs =
     (fs = [get_request u] \<or> (\<exists>p. dweetProxyUrl u = Inr p \<and> fs = [get_request u, get_request p]))"

text \<open>
  Of a list of engine events: whether the gathering state never becomes complete, when it
  first does (in milliseconds from the start), which events occur before a timer of
  \<open>limit\<close> milliseconds fires, and the local description after a list of events.
\<close>

definition never_complete :: "(nat \<times> engine_event) list \<Rightarrow> bool" where
  "never_complete evs = list_all (\<lambda>(dt, ev). ev \<noteq> GatheringStateChange Complete) evs"

fun first_complete :: "nat \<Rightarrow> (nat \<times> engine_event) list \<Rightarrow> nat option" where
  "first_complete elapsed [] = None"
| "first_complete elapsed ((dt, ev) # evs) =
     (if ev = GatheringStateChange Complete then Some (elapsed + dt)
      else first_complete (elapsed + dt) evs)"

fun occurring_before :: "nat \<Rightarrow> (nat \<times> engine_event) list \<Rightarrow> engine_event list" where
  "occurring_before limit [] = []"
| "occurring_before limit ((dt, ev) # evs) =
     (if limit \<le> dt then [] else ev # occurring_before (limit - dt) evs)"

fun description_after :: "json \<Rightarrow> engine_event list \<Rightarrow> json" where
  "description_after d [] = d"
| "description_after d (LocalDescriptionUpdate d' # evs) = description_after d' evs"
| "description_after d (GatheringStateChange g # evs) = description_after d evs"

text \<open>The six-bit groups of a byte string, before they are written as characters.\<close>

fun b64_sextets :: "nat list \<Rightarrow> nat list" where
  "b64_sextets [] = []"
| "b64_sextets [a] = [a div 4, (a mod 4) * 16]"
| "b64_sextets [a, b] = [a div 4, (a mod 4) * 16 + b div 16, (b mod 16) * 4]"
| "b64_sextets (a # b # c # r) =
     a div 4 # ((a mod 4) * 16 + b div 16) # ((b mod 16) * 4 + c div 64) # (c mod 64) #
     b64_sextets r"

text \<open>The base64url form of a base64 text, as a sender of a URL makes it.\<close>

definition to_base64url :: "jsstring \<Rightarrow> jsstring" where
  "to_base64url e =
     rev (dropWhile (\<lambda>c. c = 61) (rev (replace_all 47 95 (replace_all 43 45 e))))"

text \<open>What follows a value in the text that \<open>JSON.stringify\<close> writes: the end, a comma, or
  a closing bracket or brace. And the characters a value starts with.\<close>

definition closes :: "jsstring \<Rightarrow> bool" where
  "closes rest = (rest = [] \<or> hd rest = 44 \<or> hd rest = 93 \<or> hd rest = 125)"

definition starts_value :: "nat \<Rightarrow> bool" where
  "starts_value c =
     (c = 110 \<or> c = 116 \<or> c = 102 \<or> c = 34 \<or> c = 91 \<or> c = 123 \<or> c = 45 \<or> is_digit c)"

text \<open>
  The JSON-serializable values: every number is a finite double, and every object lists
  its members as JavaScript enumerates them, no key twice, the array indices first and
  in ascending order.
\<close>

definition precedes :: "jsstring \<Rightarrow> jsstring \<Rightarrow> bool" where
  "precedes a b =
     (case array_index b of
        None \<Rightarrow> True
      | Some j \<Rightarrow> (case array_index a of None \<Rightarrow> False | Some i \<Rightarrow> i < j))"

definition enumeration_order :: "(jsstring \<times> json) list \<Rightarrow> bool" where
  "enumeration_order kvs = (distinct (map fst kvs) \<and> sorted_wrt precedes (map fst kvs))"

fun serializable :: "json \<Rightarrow> bool" where
  "serializable JNull = True"
| "serializable (JBool b) = True"
| "serializable (JNum x) = (to_double x = JNum x)"
| "serializable (JNonFinite n) = False"
| "serializable (JStr s) = True"
| "serializable (JArr xs) = (\<forall>x \<in> set xs. serializable x)"
| "serializable (JObj kvs) = (enumeration_order kvs \<and> (\<forall>v \<in> set (map snd kvs). serializable v))"

text \<open>
  Encoding and then decoding, as one function; and the same with the encoded text rewritten
  to the URL-safe alphabet, its padding stripped, before it is decoded.
\<close>

definition round_trip :: "json \<Rightarrow> error + json" where
  "round_trip x =
     (case encodeSdp x of
        Inl err \<Rightarrow> Inl err
      | Inr e \<Rightarrow> decodeSdp (Json (JStr e)))"

definition round_trip_urlsafe :: "json \<Rightarrow> error + json" where
  "round_trip_urlsafe x =
     (case encodeSdp x of
        Inl err \<Rightarrow> Inl err
      | Inr e \<Rightarrow> decodeSdp (Json (JStr (to_base64url e))))"

text \<open>Values for the concrete runs.\<close>

definition session_url :: jsstring where
  "session_url = dweet_latest_url (js ''colormatch-ABC123-offer'')"

definition garbled_reply :: json where
  "garbled_reply = JObj [(js ''sdp'', JStr (js ''!!''))]"

definition empty_reply :: json where
  "empty_reply = JObj [(js ''with'', JArr [])]"

definition served_reply :: json where
  "served_reply =
     JObj [(js ''with'', JArr [JObj [(js ''content'', JObj [(js ''sdp'', JStr (js ''bnVsbA''))])]])]"

definition sparse_candidate :: json where
  "sparse_candidate = JObj [(js ''candidate'', JStr (js ''candidate:1''))]"

definition euro_offer :: json where
  "euro_offer = JObj [(js ''type'', JStr (js ''offer'')), (js ''sdp'', JStr [8364])]"

definition tick_offer :: json where
  "tick_offer =
     JObj [(js ''type'', JStr (js ''offer'')), (js ''sdp'', JStr (js ''v=0'')), (js ''t'', JNum (1 / 2))]"

definition plain_offer :: json where
  "plain_offer = JObj [(js ''type'', JStr (js ''offer'')), (js ''sdp'', JStr (js ''v=0''))]"

definition store_url :: jsstring where
  "store_url = dweet_store_url (js ''colormatch-ABC123-offer'')"

definition store_proxy_url :: jsstring where
  "store_proxy_url =
     js ''https://corsproxy.org/?https%3A%2F%2Fdweet.cc%2Fdweet%2Ffor%2Fcolormatch-ABC123-offer''"

definition plain_request :: "jsstring \<Rightarrow> request" where
  "plain_request = post_request (sdp_body (js ''offer'') (b64_encode (JSON_stringify plain_offer)) 7)"

definition ice_content :: json where
  "ice_content = JObj [(js ''candidate'', sparse_candidate), (js ''timestamp'', JNum 7)]"

definition enveloped_ice_reply :: json where
  "enveloped_ice_reply =
     JObj [(js ''with'', JArr [JObj [(js ''content'', ice_content), (js ''created'', JNum 9)]])]"

definition bare_ice_reply :: json where
  "bare_ice_reply = JObj [(js ''content'', ice_content), (js ''created'', JNum 9)]"

definition bare_sdp_reply :: json where
  "bare_sdp_reply = JObj [(js ''content'', JObj [(js ''sdp'', JStr (js ''bnVsbA''))])]"

definition ice_url :: jsstring where
  "ice_url = dweet_latest_url (js ''colormatch-ABC123-ice-answerer'')"

definition stalled_gathering :: "(nat \<times> engine_event) list" where
  "stalled_gathering =
     [(100, GatheringStateChange Gathering), (200, LocalDescriptionUpdate (JNum 1)),
      (4800, LocalDescriptionUpdate (JNum 2))]"

definition quick_gathering :: "(nat \<times> engine_event) list" where
  "quick_gathering =
     [(100, GatheringStateChange Gathering), (200, LocalDescriptionUpdate (JNum 1)),
      (50, GatheringStateChange Complete)]"

section \<open>Properties\<close>

subsection \<open>Numbers and their text\<close>

declare digits.simps [simp del]
declare exact_scale.simps [simp del]
declare bit_length.simps [simp del]

lemma digits_small: "n < 10 \<Longrightarrow> digits n = [48 + n]"
  by (subst digits.simps) simp

lemma digits_large: "10 \<le> n \<Longrightarrow> digits n = digits (n div 10) @ [48 + n mod 10]"
  by (subst digits.simps) simp

lemma digits_value_snoc: "digits_value (ds @ [d]) = 10 * digits_value ds + (d - 48)"
  by (simp add: digits_value_def)

lemma digits_value_digits: "digits_value (digits n) = n"
proof (induction n rule: digits.induct)
  case (1 n)
  show ?case
  proof (cases "n < 10")
    case True
    then show ?thesis by (simp add: digits_small digits_value_def)
  next
    case False
    with 1 show ?thesis by (simp add: digits_large digits_value_snoc)
  qed
qed

lemma digits_are_digits: "\<forall>c \<in> set (digits n). is_digit c"
proof (induction n rule: digits.induct)
  case (1 n)
  show ?case
  proof (cases "n < 10")
    case True
    then show ?thesis by (simp add: digits_small is_digit_def)
  next
    case False
    have "n mod 10 < 10" by simp
    then have "is_digit (48 + n mod 10)" unfolding is_digit_def by linarith
    with False 1 show ?thesis by (simp add: digits_large)
  qed
qed

lemma digits_nonempty: "digits n \<noteq> []"
  by (cases "n < 10") (simp_all add: digits_small digits_large)

lemma digits_leading: "n \<noteq> 0 \<Longrightarrow> hd (digits n) \<noteq> 48"
proof (induction n rule: digits.induct)
  case (1 n)
  show ?case
  proof (cases "n < 10")
    case True
    with 1 show ?thesis by (simp add: digits_small)
  next
    case False
    then have "n div 10 \<noteq> 0" by simp
    with False 1 show ?thesis by (simp add: digits_large digits_nonempty)
  qed
qed

lemma digits_value_append:
  "digits_value (a @ b) = digits_value a * 10 ^ length b + digits_value b"
proof (induction b rule: rev_induct)
  case Nil
  show ?case by (simp add: digits_value_def)
next
  case (snoc d b)
  have "digits_value (a @ b @ [d]) = 10 * digits_value (a @ b) + (d - 48)"
    using digits_value_snoc [of "a @ b" d] by simp
  with snoc show ?case by (simp add: digits_value_snoc algebra_simps)
qed

lemma digits_value_zeros: "digits_value (replicate m 48) = 0"
proof (induction m)
  case 0
  show ?case by (simp add: digits_value_def)
next
  case (Suc m)
  have "replicate (Suc m) (48::nat) = replicate m 48 @ [48]"
    by (simp add: replicate_append_same)
  with Suc show ?case by (simp only: digits_value_snoc)
qed

lemma takeWhile_digits:
  assumes "\<forall>c \<in> set ds. is_digit c" "rest = [] \<or> \<not> is_digit (hd rest)"
  shows "takeWhile is_digit (ds @ rest) = ds" "dropWhile is_digit (ds @ rest) = rest"
  using assms by (cases rest; simp add: takeWhile_append2 dropWhile_append2)+

lemma parse_fraction_none: "t = [] \<or> hd t \<noteq> 46 \<Longrightarrow> parse_fraction t = Some ([], t)"
  by (cases t) (auto simp: parse_fraction_def)

lemma parse_fraction_some:
  assumes "fd \<noteq> []" "\<forall>c \<in> set fd. is_digit c" "t = [] \<or> \<not> is_digit (hd t)"
  shows "parse_fraction (46 # fd @ t) = Some (fd, t)"
  using assms takeWhile_digits [OF assms(2,3)] by (simp add: parse_fraction_def)

lemma parse_exponent_none:
  "t = [] \<or> (hd t \<noteq> 101 \<and> hd t \<noteq> 69) \<Longrightarrow> parse_exponent t = Some (0, t)"
  by (cases t) (auto simp: parse_exponent_def)

lemma parse_exponent_some:
  assumes "t = [] \<or> \<not> is_digit (hd t)"
  shows "parse_exponent (101 # (if 0 < i then 43 else 45) # digits (nat \<bar>i\<bar>) @ t) = Some (i, t)"
proof -
  let ?ds = "digits (nat \<bar>i\<bar>)"
  have tw: "takeWhile is_digit (?ds @ t) = ?ds" "dropWhile is_digit (?ds @ t) = t"
    using takeWhile_digits [OF digits_are_digits assms] by auto
  show ?thesis
    using digits_nonempty [of "nat \<bar>i\<bar>"]
    by (simp add: parse_exponent_def tw digits_value_digits)
qed

text \<open>The parser on a literal given by its parts.\<close>

lemma parse_number_parts:
  assumes ip: "ip \<noteq> []" "\<forall>c \<in> set ip. is_digit c" "hd ip = 48 \<longrightarrow> length ip = 1"
    and t: "t = [] \<or> \<not> is_digit (hd t)"
    and fr: "parse_fraction t = Some (fd, t2)"
    and ex: "parse_exponent t2 = Some (ex, rest)"
  shows "parse_number ((if neg then [45] else []) @ ip @ t) =
     Some (to_double ((if neg then - 1 else 1) *
             (of_nat (digits_value (ip @ fd)) * 10 powi (ex - int (length fd)))), rest)"
proof -
  have tw: "takeWhile is_digit (ip @ t) = ip" "dropWhile is_digit (ip @ t) = t"
    using takeWhile_digits [OF ip(2) t] by auto
  obtain d ds where d: "ip = d # ds" using ip(1) by (cases ip) auto
  with ip(2) have "is_digit d" by simp
  then have nm: "d \<noteq> 45" by (auto simp: is_digit_def)
  have lead: "\<not> (hd ip = 48 \<and> 1 < length ip)" using ip(3) by auto
  show ?thesis
  proof (cases neg)
    case True
    then show ?thesis
      using ip(1) lead by (simp add: parse_number_def tw fr ex Let_def)
  next
    case False
    have "\<not> (ip @ t \<noteq> [] \<and> hd (ip @ t) = 45)" using d nm by simp
    with False show ?thesis
      using ip(1) lead by (simp add: parse_number_def tw fr ex Let_def)
  qed
qed

lemma zero_digit: "is_digit 48"
  by (simp add: is_digit_def)

lemma not_digits: "\<not> is_digit 46" "\<not> is_digit 101" "\<not> is_digit 69"
  by (simp_all add: is_digit_def)

lemma power_int_nat: "0 \<le> e \<Longrightarrow> (10::rat) powi e = 10 ^ nat e"
  by (simp add: power_int_def)

lemma parse_format:
  assumes s: "0 < s"
    and stop: "rest = [] \<or>
      (\<not> is_digit (hd rest) \<and> hd rest \<noteq> 46 \<and> hd rest \<noteq> 101 \<and> hd rest \<noteq> 69)"
  shows "parse_number ((if neg then [45] else []) @ format_decimal s e @ rest) =
     Some (to_double ((if neg then - 1 else 1) * (of_nat s * 10 powi e)), rest)"
proof -
  define ds where "ds = digits s"
  define k where "k = int (length ds)"
  define n where "n = e + k"
  have ne: "ds \<noteq> []" unfolding ds_def by (rule digits_nonempty)
  have dig: "\<forall>c \<in> set ds. is_digit c" unfolding ds_def by (rule digits_are_digits)
  have lead: "hd ds \<noteq> 48" unfolding ds_def using s by (intro digits_leading) simp
  have val: "digits_value ds = s" unfolding ds_def by (rule digits_value_digits)
  have k1: "1 \<le> k" using ne by (cases ds) (simp_all add: k_def)
  have e: "e = n - k" by (simp add: n_def)
  have st1: "rest = [] \<or> \<not> is_digit (hd rest)" using stop by auto
  have fr0: "parse_fraction rest = Some ([], rest)"
    using stop by (intro parse_fraction_none) auto
  have ex0: "parse_exponent rest = Some (0, rest)"
    using stop by (intro parse_exponent_none) auto
  have fmt: "format_decimal s e =
     (if k \<le> n \<and> n \<le> 21 then ds @ replicate (nat (n - k)) 48
      else if 0 < n \<and> n \<le> 21 then take (nat n) ds @ 46 # drop (nat n) ds
      else if - 6 < n \<and> n \<le> 0 then 48 # 46 # replicate (nat (- n)) 48 @ ds
      else hd ds # (if k = 1 then [] else 46 # tl ds) @
           101 # (if 0 < n - 1 then 43 else 45) # digits (nat \<bar>n - 1\<bar>))"
    by (simp add: format_decimal_def Let_def ds_def k_def n_def)
  consider (whole) "k \<le> n" "n \<le> 21"
    | (point) "n < k" "0 < n" "n \<le> 21"
    | (small) "n < k" "- 6 < n" "n \<le> 0"
    | (expo) "\<not> (k \<le> n \<and> n \<le> 21)" "\<not> (0 < n \<and> n \<le> 21)" "\<not> (- 6 < n \<and> n \<le> 0)"
    using k1 by linarith
  then show ?thesis
  proof cases
    case whole
    define m where "m = nat (n - k)"
    let ?ip = "ds @ replicate m 48"
    have f: "format_decimal s e = ?ip" using whole by (simp add: fmt m_def)
    have ip: "?ip \<noteq> []" "\<forall>c \<in> set ?ip. is_digit c" "hd ?ip = 48 \<longrightarrow> length ?ip = 1"
      using ne dig lead zero_digit by auto
    have v: "of_nat (digits_value (?ip @ [])) * 10 powi (0 - int (length ([]::nat list))) =
        (of_nat s * 10 powi e :: rat)"
      using whole by (simp add: digits_value_append digits_value_zeros val e power_int_nat m_def)
    from parse_number_parts [OF ip st1 fr0 ex0, of neg]
    show ?thesis unfolding f v by simp
  next
    case point
    define a where "a = take (nat n) ds"
    define b where "b = drop (nat n) ds"
    have f: "format_decimal s e = a @ 46 # b" using point by (simp add: fmt a_def b_def)
    have ab: "a @ b = ds" by (simp add: a_def b_def)
    have lb: "int (length b) = k - n" using point by (simp add: b_def k_def)
    then have bne: "b \<noteq> []" using point by auto
    have ane: "a \<noteq> []" using point ne by (simp add: a_def)
    have hda: "hd a = hd ds" using point by (simp add: a_def hd_take)
    have ip: "a \<noteq> []" "\<forall>c \<in> set a. is_digit c" "hd a = 48 \<longrightarrow> length a = 1"
      using ane dig lead hda by (auto simp: a_def dest: in_set_takeD)
    have bd: "\<forall>c \<in> set b. is_digit c" using dig by (auto simp: b_def dest: in_set_dropD)
    have t: "46 # b @ rest = [] \<or> \<not> is_digit (hd (46 # b @ rest))"
      using not_digits by simp
    have fr: "parse_fraction (46 # b @ rest) = Some (b, rest)"
      by (rule parse_fraction_some [OF bne bd st1])
    have v: "of_nat (digits_value (a @ b)) * 10 powi (0 - int (length b)) =
        (of_nat s * 10 powi e :: rat)"
      by (simp add: ab val lb e)
    from parse_number_parts [OF ip t fr ex0, of neg]
    show ?thesis unfolding f v by simp
  next
    case small
    define m where "m = nat (- n)"
    define b where "b = replicate m 48 @ ds"
    have f: "format_decimal s e = [48] @ 46 # b" using small by (simp add: fmt m_def b_def)
    have ip: "[48::nat] \<noteq> []" "\<forall>c \<in> set [48::nat]. is_digit c"
      "hd [48::nat] = 48 \<longrightarrow> length [48::nat] = 1"
      using zero_digit by simp_all
    have bne: "b \<noteq> []" using ne by (simp add: b_def)
    have bd: "\<forall>c \<in> set b. is_digit c" using dig zero_digit by (auto simp: b_def)
    have t: "46 # b @ rest = [] \<or> \<not> is_digit (hd (46 # b @ rest))"
      using not_digits by simp
    have fr: "parse_fraction (46 # b @ rest) = Some (b, rest)"
      by (rule parse_fraction_some [OF bne bd st1])
    have "[48] @ b = replicate (Suc m) 48 @ ds" by (simp add: b_def)
    then have dv: "digits_value ([48] @ b) = s"
      by (simp only: digits_value_append digits_value_zeros val)
    have lb: "int (length b) = k - n" using small by (simp add: b_def m_def k_def)
    have v: "of_nat (digits_value ([48] @ b)) * 10 powi (0 - int (length b)) =
        (of_nat s * 10 powi e :: rat)"
      by (simp only: dv lb e) simp
    from parse_number_parts [OF ip t fr ex0, of neg]
    show ?thesis unfolding f v by simp
  next
    case expo
    define x where "x = n - 1"
    define tail where "tail = 101 # (if 0 < x then 43 else 45) # digits (nat \<bar>x\<bar>) @ rest"
    obtain d b where db: "ds = d # b" using ne by (cases ds) auto
    have f0: "format_decimal s e = d # (if k = 1 then [] else 46 # b) @
        101 # (if 0 < x then 43 else 45) # digits (nat \<bar>x\<bar>)"
      unfolding fmt x_def db using expo by (simp only: if_False list.sel)
    have ip: "[d] \<noteq> []" "\<forall>c \<in> set [d]. is_digit c" "hd [d] = 48 \<longrightarrow> length [d] = 1"
      using dig db by simp_all
    have ex: "parse_exponent tail = Some (x, rest)"
      unfolding tail_def by (rule parse_exponent_some [OF st1])
    have tl_nd: "tail = [] \<or> \<not> is_digit (hd tail)" using not_digits by (simp add: tail_def)
    show ?thesis
    proof (cases "k = 1")
      case True
      then have b: "b = []" by (simp add: k_def db)
      have f: "format_decimal s e @ rest = [d] @ tail"
        using True by (simp add: f0 tail_def)
      have fr: "parse_fraction tail = Some ([], tail)"
        by (intro parse_fraction_none) (simp add: tail_def)
      have v: "of_nat (digits_value ([d] @ [])) * 10 powi (x - int (length ([]::nat list))) =
          (of_nat s * 10 powi e :: rat)"
        using val True by (simp add: db b e x_def)
      from parse_number_parts [OF ip tl_nd fr ex, of neg]
      show ?thesis unfolding v f [symmetric] by simp
    next
      case False
      then have bne: "b \<noteq> []" using k1 by (auto simp: k_def db)
      have bd: "\<forall>c \<in> set b. is_digit c" using dig db by simp
      have f: "format_decimal s e @ rest = [d] @ 46 # b @ tail"
        using False by (simp add: f0 tail_def)
      have t: "46 # b @ tail = [] \<or> \<not> is_digit (hd (46 # b @ tail))"
        using not_digits by simp
      have fr: "parse_fraction (46 # b @ tail) = Some (b, tail)"
        by (rule parse_fraction_some [OF bne bd tl_nd])
      have lb: "int (length b) = k - 1" by (simp add: k_def db)
      have v: "of_nat (digits_value ([d] @ b)) * 10 powi (x - int (length b)) =
          (of_nat s * 10 powi e :: rat)"
        using val by (simp add: db lb e x_def)
      from parse_number_parts [OF ip t fr ex, of neg]
      show ?thesis unfolding v f [symmetric] by simp
    qed
  qed
qed

lemma format_first: "\<exists>c t. format_decimal s e = c # t \<and> is_digit c"
proof -
  define ds where "ds = digits s"
  obtain d b where db: "ds = d # b" using digits_nonempty [of s] by (cases ds) (auto simp: ds_def)
  have "is_digit d" using digits_are_digits [of s] db by (simp add: ds_def)
  then show ?thesis
    using zero_digit
    by (auto simp: format_decimal_def Let_def ds_def [symmetric] db take_Cons' nat_le_0)
qed

text \<open>A finite double comes back from the text \<open>JSON.stringify\<close> writes for it.\<close>

lemma exact_scale_integer:
  assumes "of_int \<lfloor>x * 10 ^ (j + a)\<rfloor> = x * 10 ^ (j + a)" "a \<le> fuel"
  shows "of_int \<lfloor>x * 10 ^ exact_scale fuel j x\<rfloor> = x * 10 ^ exact_scale fuel j x"
  using assms
proof (induction fuel arbitrary: j a)
  case 0
  then show ?case by (subst (1 2) exact_scale.simps) simp
next
  case (Suc fuel)
  show ?case
  proof (cases "of_int \<lfloor>x * 10 ^ j\<rfloor> = x * 10 ^ j")
    case True
    then have "exact_scale (Suc fuel) j x = j" by (subst exact_scale.simps) simp
    with True show ?thesis by simp
  next
    case False
    then have step: "exact_scale (Suc fuel) j x = exact_scale fuel (Suc j) x"
      by (subst exact_scale.simps) simp
    from False Suc.prems(1) have "a \<noteq> 0" by (cases a) auto
    then obtain a' where a': "a = Suc a'" by (cases a) auto
    with Suc.prems have "of_int \<lfloor>x * 10 ^ (Suc j + a')\<rfloor> = x * 10 ^ (Suc j + a')" "a' \<le> fuel"
      by simp_all
    from Suc.IH [OF this] show ?thesis unfolding step .
  qed
qed

lemma scaled_integer:
  fixes x :: rat
  assumes x: "x = of_int m * 2 powi i" and i: "- 1074 \<le> i"
  shows "\<exists>a \<le> 1074. of_int \<lfloor>x * 10 ^ a\<rfloor> = x * 10 ^ a"
proof (cases "0 \<le> i")
  case True
  then have "x = of_int (m * 2 ^ nat i)" by (simp add: x power_int_def)
  then have "of_int \<lfloor>x * 10 ^ 0\<rfloor> = x * 10 ^ 0" by simp
  then show ?thesis by blast
next
  case False
  define a where "a = nat (- i)"
  have a: "a \<le> 1074" using i by (simp add: a_def)
  have "(2::rat) powi i = inverse 2 ^ a" using False by (simp add: power_int_def a_def)
  then have "x * 10 ^ a = of_int m * (inverse 2 ^ a * 10 ^ a)" by (simp add: x)
  also have "inverse 2 ^ a * 10 ^ a = (5::rat) ^ a"
    by (simp add: power_mult_distrib [symmetric])
  finally have "x * 10 ^ a = of_int (m * 5 ^ a)" by simp
  then have "of_int \<lfloor>x * 10 ^ a\<rfloor> = x * 10 ^ a" by simp
  with a show ?thesis by blast
qed

lemma round_positive_form:
  assumes "round_positive x = Some r"
  shows "\<exists>m i. r = of_int m * 2 powi i \<and> - 1074 \<le> i"
proof -
  define e where "e = max (floor_log2 x) (- 1022)"
  define m where "m = round_half_even (x / 2 powi (e - 52))"
  have "r = of_int m * 2 powi (e - 52)"
    using assms unfolding round_positive_def Let_def e_def [symmetric] m_def [symmetric]
    by (simp split: if_splits)
  moreover have "- 1074 \<le> e - 52" by (simp add: e_def)
  ultimately show ?thesis by blast
qed

lemma double_positive:
  assumes "to_double x = JNum r" "0 < x"
  shows "round_positive x = Some r"
  using assms by (auto simp: to_double_def split: option.splits)

lemma double_negative:
  assumes "to_double x = JNum r" "x < 0"
  shows "round_positive (- x) = Some (- r)"
  using assms by (auto simp: to_double_def split: option.splits)

lemma to_double_positive: "0 < x \<Longrightarrow> round_positive x = Some r \<Longrightarrow> to_double x = JNum r"
  by (simp add: to_double_def)

lemma to_double_negative: "0 < x \<Longrightarrow> round_positive x = Some r \<Longrightarrow> to_double (- x) = JNum (- r)"
  by (simp add: to_double_def)

lemma shortest_valid:
  assumes d: "to_double x = JNum x" and pos: "0 < x"
  shows "\<exists>s e. shortest x = (s, e) \<and> 0 < s \<and> to_double (of_nat s * 10 powi e) = JNum x"
proof -
  define j where "j = exact_scale 1074 0 x"
  define S where "S = nat \<lfloor>x * 10 ^ j\<rfloor>"
  define cs where "cs = concat (map (candidates x S j) [1 ..< Suc (length (digits S))])"
  define valid where "valid = (\<lambda>(s::nat, e). to_double (of_nat s * 10 powi e) = JNum x)"
  have sh: "shortest x = (case find valid cs of Some c \<Rightarrow> c | None \<Rightarrow> (S, - int j))"
    by (simp only: shortest_def Let_def j_def S_def cs_def valid_def)
  from round_positive_form [OF double_positive [OF d pos]]
  obtain m i where "x = of_int m * 2 powi i" "- 1074 \<le> i" by blast
  from scaled_integer [OF this] obtain a where
    a: "a \<le> 1074" "of_int \<lfloor>x * 10 ^ (0 + a)\<rfloor> = x * 10 ^ (0 + a)" by auto
  from exact_scale_integer [OF a(2) a(1)]
  have ex: "of_int \<lfloor>x * 10 ^ j\<rfloor> = x * 10 ^ j" by (simp add: j_def)
  have "0 \<le> x * 10 ^ j" using pos by simp
  then have "0 \<le> \<lfloor>x * 10 ^ j\<rfloor>" by simp
  then have "(of_nat S :: rat) = of_int \<lfloor>x * 10 ^ j\<rfloor>" by (simp add: S_def)
  with ex have "(of_nat S :: rat) = x * 10 ^ j" by simp
  then have "of_nat S * 10 powi (- int j) = x"
    by (simp add: power_int_minus)
  then have fallback: "valid (S, - int j)" using d by (simp add: valid_def)
  have "valid (shortest x)"
  proof (cases "find valid cs")
    case None
    with fallback show ?thesis by (simp add: sh)
  next
    case (Some c)
    then have "valid c" by (auto simp: find_Some_iff)
    with Some show ?thesis by (simp add: sh)
  qed
  then obtain s e where se: "shortest x = (s, e)" "to_double (of_nat s * 10 powi e) = JNum x"
    by (cases "shortest x") (auto simp: valid_def)
  have "s \<noteq> 0"
  proof
    assume "s = 0"
    with se(2) have "JNum 0 = JNum x" by (simp add: to_double_def)
    with pos show False by simp
  qed
  with se show ?thesis by auto
qed

lemma number_roundtrip:
  assumes d: "to_double x = JNum x"
    and stop: "rest = [] \<or>
      (\<not> is_digit (hd rest) \<and> hd rest \<noteq> 46 \<and> hd rest \<noteq> 101 \<and> hd rest \<noteq> 69)"
  shows "parse_number (number_to_string x @ rest) = Some (JNum x, rest)"
proof -
  consider (zero) "x = 0" | (pos) "0 < x" | (neg) "x < 0" by linarith
  then show ?thesis
  proof cases
    case zero
    have ip: "[48::nat] \<noteq> []" "\<forall>c \<in> set [48::nat]. is_digit c"
      "hd [48::nat] = 48 \<longrightarrow> length [48::nat] = 1"
      using zero_digit by simp_all
    have st1: "rest = [] \<or> \<not> is_digit (hd rest)" using stop by auto
    have fr0: "parse_fraction rest = Some ([], rest)"
      using stop by (intro parse_fraction_none) auto
    have ex0: "parse_exponent rest = Some (0, rest)"
      using stop by (intro parse_exponent_none) auto
    from parse_number_parts [OF ip st1 fr0 ex0, of False]
    have "parse_number ([48] @ rest) = Some (to_double 0, rest)"
      by (simp add: digits_value_def)
    then show ?thesis using zero by (simp add: number_to_string_def to_double_def)
  next
    case pos
    from shortest_valid [OF d pos] obtain s e where
      se: "shortest x = (s, e)" "0 < s" "to_double (of_nat s * 10 powi e) = JNum x" by blast
    have "number_to_string x = format_decimal s e"
      using pos se(1) by (simp add: number_to_string_def)
    with parse_format [OF se(2) stop, of False e] se(3) show ?thesis by simp
  next
    case neg
    then have pos: "0 < - x" by simp
    from double_negative [OF d neg] have "round_positive (- x) = Some (- x)" .
    then have d': "to_double (- x) = JNum (- x)" using pos by (simp add: to_double_def)
    from shortest_valid [OF d' pos] obtain s e where
      se: "shortest (- x) = (s, e)" "0 < s" "to_double (of_nat s * 10 powi e) = JNum (- x)"
      by blast
    define v :: rat where "v = of_nat s * 10 powi e"
    have v: "0 < v" unfolding v_def using se(2) by (simp add: zero_less_power_int)
    have "to_double v = JNum (- x)" using se(3) by (simp only: v_def)
    from double_positive [OF this v] have "round_positive v = Some (- x)" .
    from to_double_negative [OF v this] have restored: "to_double (- v) = JNum x" by simp
    have "number_to_string x = [45] @ format_decimal s e"
      using neg se(1) by (simp add: number_to_string_def)
    with parse_format [OF se(2) stop, of True e] restored show ?thesis by (simp add: v_def)
  qed
qed

lemma number_first: "\<exists>c t. number_to_string x = c # t \<and> (c = 45 \<or> is_digit c)"
proof -
  consider (zero) "x = 0" | (pos) "0 < x" | (neg) "x < 0" by linarith
  then show ?thesis
  proof cases
    case zero
    then show ?thesis using zero_digit by (simp add: number_to_string_def)
  next
    case neg
    then show ?thesis by (simp add: number_to_string_def split: prod.splits)
  next
    case pos
    obtain s e where se: "shortest x = (s, e)" by (cases "shortest x")
    from format_first [of s e] pos se show ?thesis by (auto simp: number_to_string_def)
  qed
qed

text \<open>The floor and the ceiling of a quotient of numerals, for the evaluation of the
  definitions on given numbers.\<close>

lemma floor_rat_numeral [simp]:
  "\<lfloor>(numeral a :: rat) / numeral b\<rfloor> = numeral a div numeral b"
  using floor_divide_of_int_eq [of "numeral a" "numeral b", where ?'a = rat] by simp

lemma floor_rat_one [simp]: "\<lfloor>(1 :: rat) / numeral b\<rfloor> = 1 div numeral b"
  using floor_divide_of_int_eq [of 1 "numeral b", where ?'a = rat] by simp

lemma ceiling_rat_numeral [simp]:
  "\<lceil>(numeral a :: rat) / numeral b\<rceil> = - (- numeral a div numeral b)"
  using ceiling_divide_eq_div [of "numeral a" "numeral b", where ?'a = rat] by simp

lemmas double_eval = to_double_def round_positive_def floor_log2_def round_half_even_def Let_def
  bit_length.simps

lemma to_double_7: "to_double 7 = JNum 7"
  by (simp add: double_eval)

lemma to_double_half: "to_double (1 / 2) = JNum (1 / 2)"
  by (simp add: double_eval)

lemma to_double_tenth: "to_double (1 / 10) = JNum (3602879701896397 / 36028797018963968)"
  by (simp add: double_eval)

lemma to_double_2_53_1: "to_double 9007199254740993 = JNum 9007199254740992"
  by (simp add: double_eval)

lemma exact_scale_now: "of_int \<lfloor>x * 10 ^ j\<rfloor> = x * 10 ^ j \<Longrightarrow> exact_scale fuel j x = j"
  by (subst exact_scale.simps) simp

lemma exact_scale_later:
  "of_int \<lfloor>x * 10 ^ j\<rfloor> \<noteq> x * 10 ^ j \<Longrightarrow> fuel \<noteq> 0 \<Longrightarrow>
   exact_scale fuel j x = exact_scale (fuel - 1) (Suc j) x"
  by (subst exact_scale.simps) simp

lemma number_7: "number_to_string 7 = [55]"
proof -
  have j: "exact_scale 1074 0 7 = 0" by (rule exact_scale_now) simp
  have c: "candidates 7 7 0 (Suc 0) = [(7, 0), (8, 0)]"
    by (simp add: candidates_def Let_def digits_small)
  have "shortest 7 = (7, 0)"
    by (simp add: shortest_def j Let_def digits_small c to_double_7)
  then show ?thesis by (simp add: number_to_string_def format_decimal_def digits_small)
qed

lemma number_half: "number_to_string (1 / 2) = [48, 46, 53]"
proof -
  have "exact_scale 1074 0 (1 / 2) = exact_scale (1074 - 1) (Suc 0) (1 / 2)"
    by (rule exact_scale_later) simp_all
  also have "\<dots> = Suc 0" by (rule exact_scale_now) simp
  finally have j: "exact_scale 1074 0 (1 / 2) = Suc 0" .
  have c: "candidates (1 / 2) 5 (Suc 0) (Suc 0) = [(5, - 1), (6, - 1)]"
    by (simp add: candidates_def Let_def digits_small)
  have "shortest (1 / 2) = (5, - 1)"
    by (simp add: shortest_def j Let_def digits_small c to_double_half)
  then show ?thesis by (simp add: number_to_string_def format_decimal_def digits_small)
qed

text \<open>The rounding: \<open>floor_log2\<close> is the binary exponent, and the rounded value is a
  multiple of the unit in the last place, at most half a unit away.\<close>

lemma floor_log2_large: assumes "1 \<le> (x::rat)" shows "floor_log2 x = int (bit_length (nat \<lfloor>x\<rfloor>)) - 1"
  using assms by (simp add: floor_log2_def)

lemma below_next_integer: assumes "1 \<le> (x::rat)" shows "x < of_nat (nat \<lfloor>x\<rfloor> + 1)"
proof -
  have "x < of_int (\<lfloor>x\<rfloor> + 1)" by linarith
  moreover have "0 \<le> \<lfloor>x\<rfloor>" using assms by simp
  ultimately show ?thesis by simp
qed

lemma integer_part_below: assumes "1 \<le> (x::rat)" shows "of_nat (nat \<lfloor>x\<rfloor>) \<le> x"
proof -
  have "0 \<le> \<lfloor>x\<rfloor>" using assms by simp
  then have "(of_nat (nat \<lfloor>x\<rfloor>) :: rat) = of_int \<lfloor>x\<rfloor>" by simp
  then show ?thesis by simp
qed

lemma bit_length_positive: "0 < n \<Longrightarrow> 0 < bit_length n"
  by (subst bit_length.simps) simp

lemma ceiling_bracket: assumes "1 < (y::rat)" shows "of_nat (nat (\<lceil>y\<rceil> - 1)) < y" "y \<le> of_nat (nat (\<lceil>y\<rceil> - 1) + 1)"
  "0 < nat (\<lceil>y\<rceil> - 1)"
proof -
  have c2: "2 \<le> \<lceil>y\<rceil>" using assms by linarith
  then have e: "(of_nat (nat (\<lceil>y\<rceil> - 1)) :: rat) = of_int \<lceil>y\<rceil> - 1" by simp
  have "of_int \<lceil>y\<rceil> - 1 < y" by linarith
  then show "of_nat (nat (\<lceil>y\<rceil> - 1)) < y" by (simp only: e)
  have "y \<le> of_int \<lceil>y\<rceil>" by linarith
  then show "y \<le> of_nat (nat (\<lceil>y\<rceil> - 1) + 1)" using e by simp
  show "0 < nat (\<lceil>y\<rceil> - 1)" using c2 by simp
qed

lemma bit_length_bounds:
  "0 < n \<Longrightarrow> 2 ^ (bit_length n - 1) \<le> n \<and> n < 2 ^ bit_length n"
proof (induction n rule: bit_length.induct)
  case (1 n)
  show ?case
  proof (cases "n div 2 = 0")
    case True
    with 1(2) have "n = 1" by (simp add: div_eq_0_iff) 
    then show ?thesis by (simp add: bit_length.simps)
  next
    case False
    then have h: "0 < n div 2" by simp
    from 1(1) [OF _ h] 1(2)
    have ih: "2 ^ (bit_length (n div 2) - 1) \<le> n div 2" "n div 2 < 2 ^ bit_length (n div 2)"
      by auto
    have bl: "bit_length n = Suc (bit_length (n div 2))"
      using 1(2) by (subst bit_length.simps) simp
    have pos: "0 < bit_length (n div 2)"
      using h by (subst bit_length.simps) simp
    then have p: "(2::nat) ^ bit_length (n div 2) = 2 * 2 ^ (bit_length (n div 2) - 1)"
      by (cases "bit_length (n div 2)") simp_all
    from ih(1) have "2 * 2 ^ (bit_length (n div 2) - 1) \<le> n" by linarith
    moreover from ih(2) have "n < 2 * 2 ^ bit_length (n div 2)" by linarith
    ultimately show ?thesis by (simp add: bl p)
  qed
qed

lemma power_le_nat:
  fixes N :: nat
  shows "2 ^ k \<le> N \<Longrightarrow> (2::rat) ^ k \<le> of_nat N" "N \<le> 2 ^ k \<Longrightarrow> (of_nat N :: rat) \<le> 2 ^ k"
proof -
  assume "2 ^ k \<le> N"
  then have "(of_nat (2 ^ k) :: rat) \<le> of_nat N" by (simp only: of_nat_le_iff)
  then show "(2::rat) ^ k \<le> of_nat N" by simp
next
  assume "N \<le> 2 ^ k"
  then have "(of_nat N :: rat) \<le> of_nat (2 ^ k)" by (simp only: of_nat_le_iff)
  then show "(of_nat N :: rat) \<le> 2 ^ k" by simp
qed

text \<open>\<open>floor_log2\<close> is the binary exponent.\<close>

lemma floor_log2_bounds:
  assumes "0 < x"
  shows "2 powi floor_log2 x \<le> x \<and> x < 2 powi (floor_log2 x + 1)"
proof (cases "1 \<le> x")
  case True
  define N where "N = nat \<lfloor>x\<rfloor>"
  define c where "c = bit_length N"
  have N: "0 < N" using True by (simp add: N_def)
  have c0: "0 < c" unfolding c_def by (rule bit_length_positive [OF N])
  have fl: "floor_log2 x = int c - 1" unfolding c_def N_def by (rule floor_log2_large [OF True])
  have lo: "(of_nat N :: rat) \<le> x" unfolding N_def by (rule integer_part_below [OF True])
  have hi: "x < of_nat (N + 1)" unfolding N_def by (rule below_next_integer [OF True])
  from bit_length_bounds [OF N] have b: "2 ^ (c - 1) \<le> N" "N + 1 \<le> 2 ^ c"
    by (auto simp: c_def)
  from power_le_nat(1) [OF b(1)] lo have l: "(2::rat) ^ (c - 1) \<le> x" by linarith
  from power_le_nat(2) [OF b(2)] hi have h: "x < (2::rat) ^ c" by linarith
  have e1: "int c - 1 = int (c - 1)" using c0 by simp
  have e2: "int c - 1 + 1 = int c" by simp
  have p1: "(2::rat) powi (int c - 1) = 2 ^ (c - 1)"
    by (simp only: e1 power_int_of_nat)
  have p2: "(2::rat) powi (int c - 1 + 1) = 2 ^ c"
    by (simp only: e2 power_int_of_nat)
  show ?thesis unfolding fl p1 p2 using l h by blast
next
  case False
  define y where "y = 1 / x"
  define M where "M = nat (\<lceil>y\<rceil> - 1)"
  define c where "c = bit_length M"
  have y1: "1 < y" using False assms by (simp add: y_def)
  have M: "0 < M" unfolding M_def by (rule ceiling_bracket(3) [OF y1])
  have c0: "0 < c" unfolding c_def by (rule bit_length_positive [OF M])
  have fl: "floor_log2 x = - int c"
    using False by (simp add: floor_log2_def c_def M_def y_def)
  have lo: "(of_nat M :: rat) < y" unfolding M_def by (rule ceiling_bracket(1) [OF y1])
  have hi: "y \<le> of_nat (M + 1)" unfolding M_def by (rule ceiling_bracket(2) [OF y1])
  from bit_length_bounds [OF M] have b: "2 ^ (c - 1) \<le> M" "M + 1 \<le> 2 ^ c"
    by (auto simp: c_def)
  from power_le_nat(1) [OF b(1)] lo have l: "(2::rat) ^ (c - 1) < y" by linarith
  from power_le_nat(2) [OF b(2)] hi have h: "y \<le> (2::rat) ^ c" by linarith
  have inv: "1 / y = x" by (simp add: y_def)
  have p1: "(2::rat) powi (- int c) = 1 / 2 ^ c"
    by (simp only: power_int_minus_divide power_int_of_nat)
  have e: "- int c + 1 = - int (c - 1)" using c0 by simp
  have p2: "(2::rat) powi (- int c + 1) = 1 / 2 ^ (c - 1)"
    by (simp only: e power_int_minus_divide power_int_of_nat)
  have ypos: "0 < y" using y1 by simp
  have pw: "(0::rat) < 2 ^ (c - 1)" by simp
  have "1 / 2 ^ c \<le> 1 / y"
    by (rule divide_left_mono [OF h]) (use ypos in simp_all)
  moreover have "1 / y < 1 / 2 ^ (c - 1)"
    by (rule divide_strict_left_mono [OF l]) (use ypos pw in simp_all)
  ultimately have "1 / 2 ^ c \<le> x \<and> x < 1 / 2 ^ (c - 1)" by (simp only: inv)
  then show ?thesis unfolding fl p1 p2 .
qed

lemma round_half_even_near: "\<bar>x - of_int (round_half_even x)\<bar> \<le> 1 / 2"
proof -
  define f where "f = \<lfloor>x\<rfloor>"
  define d where "d = x - of_int f"
  define m where "m = round_half_even x"
  have d: "0 \<le> d" "d < 1" unfolding d_def f_def by linarith+
  have m: "m = (if d < 1 / 2 then f else if 1 / 2 < d then f + 1 else if even f then f else f + 1)"
    by (simp only: m_def round_half_even_def Let_def f_def d_def)
  have "m = f \<and> d \<le> 1 / 2 \<or> m = f + 1 \<and> 1 / 2 \<le> d"
    unfolding m by auto
  then have "\<bar>x - of_int m\<bar> \<le> 1 / 2"
  proof
    assume a: "m = f \<and> d \<le> 1 / 2"
    then have "x - of_int m = d" by (simp add: d_def)
    with a d show ?thesis by simp
  next
    assume a: "m = f + 1 \<and> 1 / 2 \<le> d"
    then have "x - of_int m = d - 1" by (simp add: d_def)
    with a d show ?thesis by simp
  qed
  then show ?thesis by (simp only: m_def)
qed

text \<open>The rounded value is a multiple of the unit in the last place, at most half a unit
  away.\<close>

lemma round_positive_nearest:
  assumes "0 < x" "round_positive x = Some r"
  shows "\<exists>m. r = of_int m * 2 powi (max (floor_log2 x) (- 1022) - 52) \<and>
           \<bar>x - r\<bar> \<le> 2 powi (max (floor_log2 x) (- 1022) - 52) / 2"
proof -
  define u :: rat where "u = 2 powi (max (floor_log2 x) (- 1022) - 52)"
  define m where "m = round_half_even (x / u)"
  have u: "0 < u" by (simp add: u_def zero_less_power_int)
  have r: "r = of_int m * u"
    using assms(2) unfolding round_positive_def Let_def u_def [symmetric] m_def [symmetric]
    by (simp split: if_splits)
  have "\<bar>x / u - of_int m\<bar> \<le> 1 / 2" unfolding m_def by (rule round_half_even_near)
  then have "\<bar>x / u - of_int m\<bar> * u \<le> 1 / 2 * u"
    using u by (intro mult_right_mono) simp_all
  moreover have "\<bar>x / u - of_int m\<bar> * u = \<bar>x - of_int m * u\<bar>"
  proof -
    have "\<bar>x / u - of_int m\<bar> * u = \<bar>x / u - of_int m\<bar> * \<bar>u\<bar>" using u by simp
    also have "\<dots> = \<bar>(x / u - of_int m) * u\<bar>" by (simp only: abs_mult)
    also have "(x / u - of_int m) * u = x - of_int m * u" using u by (simp add: algebra_simps)
    finally show ?thesis .
  qed
  ultimately have "\<bar>x - r\<bar> \<le> u / 2" by (simp add: r)
  with r show ?thesis unfolding u_def by blast
qed

text \<open>The functions on given inputs: an exponent literal, a literal that is not a double,
  a repeated key and keys that are array indices, the first number written in exponent
  form, and the double next to one tenth, written \<open>0.1\<close>.\<close>

lemma parse_exponent_literal: "parse_number [49, 101, 53] = Some (JNum 100000, [])"
proof -
  have ip: "[49::nat] \<noteq> []" "\<forall>c \<in> set [49::nat]. is_digit c"
    "hd [49::nat] = 48 \<longrightarrow> length [49::nat] = 1"
    by (simp_all add: is_digit_def)
  have t: "[101, 53] = [] \<or> \<not> is_digit (hd [101::nat, 53])" by (simp add: is_digit_def)
  have fr: "parse_fraction [101, 53] = Some ([], [101, 53])"
    by (simp add: parse_fraction_def)
  have ex: "parse_exponent [101, 53] = Some (5, [])"
    by (simp add: parse_exponent_def is_digit_def digits_value_def)
  have d: "to_double 100000 = JNum 100000" by (simp add: double_eval)
  from parse_number_parts [OF ip t fr ex, of False] d
  show ?thesis by (simp add: digits_value_def)
qed

lemma parse_rounds:
  "parse_number [57, 48, 48, 55, 49, 57, 57, 50, 53, 52, 55, 52, 48, 57, 57, 51] =
     Some (JNum 9007199254740992, [])"
proof -
  let ?ip = "[57, 48, 48, 55, 49, 57, 57, 50, 53, 52, 55, 52, 48, 57, 57, 51] :: nat list"
  have ip: "?ip \<noteq> []" "\<forall>c \<in> set ?ip. is_digit c" "hd ?ip = 48 \<longrightarrow> length ?ip = 1"
    by (simp_all add: is_digit_def)
  have t: "[] = [] \<or> \<not> is_digit (hd ([] :: nat list))" by simp
  have fr: "parse_fraction [] = Some ([], [])" by (simp add: parse_fraction_def)
  have ex: "parse_exponent [] = Some (0, [])" by (simp add: parse_exponent_def)
  have v: "digits_value ?ip = 9007199254740993" by (simp add: digits_value_def)
  from parse_number_parts [OF ip t fr ex, of False] to_double_2_53_1
  show ?thesis by (simp add: v)
qed

lemma build_object_repeated:
  "build_object [(js ''a'', JNum 1), (js ''b'', JNum 2), (js ''a'', JNum 3)] =
     [(js ''a'', JNum 3), (js ''b'', JNum 2)]"
  by (simp add: build_object_def define_property_def array_index_def js_def is_digit_def)

lemma build_object_index:
  "build_object [(js ''b'', JNum 1), (js ''10'', JNum 2), (js ''9'', JNum 3)] =
     [(js ''9'', JNum 3), (js ''10'', JNum 2), (js ''b'', JNum 1)]"
  by (simp add: build_object_def define_property_def array_index_def js_def is_digit_def
      digits_value_def)

lemma number_1e21: "number_to_string 1000000000000000000000 = [49, 101, 43, 50, 49]"
proof -
  let ?x = "1000000000000000000000 :: rat"
  let ?S = "1000000000000000000000 :: nat"
  have j: "exact_scale 1074 0 ?x = 0" by (rule exact_scale_now) simp
  have S: "nat \<lfloor>?x * 10 ^ 0\<rfloor> = ?S" by simp
  have d: "to_double ?x = JNum ?x" by (simp add: double_eval)
  have l: "length (digits ?S) = 22" by (simp add: digits_small digits_large)
  have c: "candidates ?x ?S 0 (Suc 0) = [(1, 21), (2, 21)]"
    by (simp add: candidates_def Let_def l)
  have f: "find (\<lambda>(s, e). to_double (of_nat s * 10 powi e) = JNum ?x)
      (concat (map (candidates ?x ?S 0) [1 ..< Suc 22])) = Some (1, 21)"
    using d by (subst upt_rec) (simp add: c)
  have "shortest ?x = (1, 21)"
    by (simp only: shortest_def j Let_def S l f option.case)
  then show ?thesis
    by (simp add: number_to_string_def format_decimal_def digits_small digits_large)
qed

lemma exact_scale_tenth:
  "exact_scale 1074 0 (3602879701896397 / 36028797018963968) = 55"
  by (simp add: exact_scale.simps)

lemma number_tenth:
  "number_to_string (3602879701896397 / 36028797018963968) = [48, 46, 49]"
proof -
  let ?x = "3602879701896397 / 36028797018963968 :: rat"
  let ?S = "1000000000000000055511151231257827021181583404541015625 :: nat"
  have S: "nat \<lfloor>?x * 10 ^ 55\<rfloor> = ?S" by simp
  have l: "length (digits ?S) = 55" by (simp add: digits_small digits_large)
  have c: "candidates ?x ?S 55 (Suc 0) = [(1, - 1), (2, - 1)]"
    by (simp add: candidates_def Let_def l)
  have f: "find (\<lambda>(s, e). to_double (of_nat s * 10 powi e) = JNum ?x)
      (concat (map (candidates ?x ?S 55) [1 ..< Suc 55])) = Some (1, - 1)"
    using to_double_tenth by (subst upt_rec) (simp add: c)
  have "shortest ?x = (1, - 1)"
    by (simp only: shortest_def exact_scale_tenth Let_def S l f option.case)
  then show ?thesis
    by (simp add: number_to_string_def format_decimal_def digits_small)
qed

subsection \<open>\<open>decodeSdp\<close> never throws\<close>

lemma those_None: "None \<in> set xs \<Longrightarrow> those xs = None"
  by (induction xs) (auto split: option.splits)

lemma strip_padding_keeps: "x \<in> set d \<Longrightarrow> x \<noteq> 61 \<Longrightarrow> x \<in> set (strip_padding d)"
proof -
  assume x: "x \<in> set d" "x \<noteq> 61"
  have keep: "\<And>ys. x \<in> set ys \<Longrightarrow> ys \<noteq> [] \<Longrightarrow> last ys = 61 \<Longrightarrow> x \<in> set (butlast ys)"
  proof -
    fix ys :: "nat list"
    assume a: "x \<in> set ys" "ys \<noteq> []" "last ys = 61"
    then have "ys = butlast ys @ [61]" by (metis append_butlast_last_id)
    then have "set ys = set (butlast ys) \<union> {61}"
      by (metis list.set(1) list.simps(15) set_append Un_insert_right sup_bot.right_neutral)
    with a x show "x \<in> set (butlast ys)" by auto
  qed
  show ?thesis
    using x keep [of d] keep [of "butlast d"]
    by (auto simp: strip_padding_def Let_def)
qed

lemma atob_rejects:
  assumes "c \<in> set d" "b64_index c = None" "c \<noteq> 61" "\<not> ascii_whitespace c"
  shows "atob d = Inl InvalidCharacterError"
proof -
  let ?d1 = "filter (\<lambda>c. \<not> ascii_whitespace c) d"
  let ?d2 = "if length ?d1 mod 4 = 0 then strip_padding ?d1 else ?d1"
  from assms have "c \<in> set ?d1" by simp
  with assms have "c \<in> set ?d2" by (simp add: strip_padding_keeps)
  with assms have "None \<in> set (map b64_index ?d2)" by force
  then have "those (map b64_index ?d2) = None" by (rule those_None)
  then show ?thesis by (simp add: atob_def Let_def)
qed

lemma decodeSdp_total: "\<exists>v. decodeSdp encoded = Inr v"
  by (simp add: decodeSdp_def split: sum.splits)

lemma decodeSdp_rejects:
  assumes c: "c \<in> set s" "b64_index c = None" "c \<noteq> 45" "c \<noteq> 95" "c \<noteq> 61"
    "\<not> ascii_whitespace c"
  shows "decodeSdp (Json (JStr s)) = Inr JNull"
proof -
  let ?b = "replace_all 95 47 (replace_all 45 43 s)"
  from c have "c \<in> set ?b" by (force simp: replace_all_def)
  then have inp: "c \<in> set (?b @ replicate ((4 - length ?b mod 4) mod 4) 61)" by simp
  have "atob (?b @ replicate ((4 - length ?b mod 4) mod 4) 61) = Inl InvalidCharacterError"
    by (rule atob_rejects [OF inp c(2) c(5) c(6)])
  then show ?thesis
    by (simp add: decodeSdp_def decodeSdp_try_def Let_def)
qed

text \<open>
  C8. \<open>decodeSdp\<close> never throws to its caller, whatever it is given: it returns a value.
  Whenever its \<open>try\<close> block throws (the argument is no string, \<open>atob\<close> rejects the text,
  \<open>JSON.parse\<close> rejects the decoded text) the value is \<open>null\<close>; in particular a string
  with a character that is neither base64, base64url, padding nor whitespace gives
  \<open>null\<close>.
\<close>

theorem decodeSdp_null_not_raise:
  "(\<exists>v. decodeSdp encoded = Inr v) \<and>
   (\<forall>err. decodeSdp_try encoded = Inl err \<longrightarrow> decodeSdp encoded = Inr JNull) \<and>
   ((\<exists>c \<in> set s. b64_index c = None \<and> c \<noteq> 45 \<and> c \<noteq> 95 \<and> c \<noteq> 61 \<and> \<not> ascii_whitespace c) \<longrightarrow>
      decodeSdp (Json (JStr s)) = Inr JNull)"
proof (intro conjI allI impI)
  show "\<exists>v. decodeSdp encoded = Inr v" by (rule decodeSdp_total)
next
  fix err assume "decodeSdp_try encoded = Inl err"
  then show "decodeSdp encoded = Inr JNull" by (simp add: decodeSdp_def)
next
  assume "\<exists>c \<in> set s. b64_index c = None \<and> c \<noteq> 45 \<and> c \<noteq> 95 \<and> c \<noteq> 61 \<and> \<not> ascii_whitespace c"
  then show "decodeSdp (Json (JStr s)) = Inr JNull"
    by (blast intro: decodeSdp_rejects)
qed

theorem decodeSdp_null_not_raise_witness:
  "decodeSdp_try (Json (JStr (js ''!!''))) = Inl InvalidCharacterError \<and>
   decodeSdp (Json (JStr (js ''!!''))) = Inr JNull \<and>
   decodeSdp_try (Json (JStr (js ''e30x''))) = Inl SyntaxError \<and>
   decodeSdp (Json (JStr (js ''e30x''))) = Inr JNull"
proof -
  have a: "decodeSdp_try (Json (JStr (js ''!!''))) = Inl InvalidCharacterError"
    by code_simp
  have b: "decodeSdp_try (Json (JStr (js ''e30x''))) = Inl SyntaxError"
    by code_simp
  from a b decodeSdp_null_not_raise [of "Json (JStr (js ''!!''))" "js ''!!''"]
    decodeSdp_null_not_raise [of "Json (JStr (js ''e30x''))" "[]"]
  show ?thesis by simp
qed

subsection \<open>\<open>sendMessage\<close>\<close>

text \<open>
  C5. For every payload and every coordinator: when the data channel does not exist or
  is not open, \<open>sendMessage\<close> returns false, leaves the coordinator as it was and writes
  nothing; when the channel exists and is open, it returns true and the channel has
  received exactly one more write, the JSON text of the payload.
\<close>

theorem sendMessage_open_or_not:
  "(\<not> channel_open c \<longrightarrow>
      fst (sendMessage data c) = False \<and> snd (sendMessage data c) = c \<and>
      writes (snd (sendMessage data c)) = writes c) \<and>
   (channel_open c \<longrightarrow>
      fst (sendMessage data c) = True \<and>
      writes (snd (sendMessage data c)) = writes c @ [JSON_stringify data])"
  by (auto simp: sendMessage_def channel_open_def writes_def split: option.splits)

theorem sendMessage_open_or_not_witness:
  "\<not> channel_open constructor \<and> fst (sendMessage (JNum 7) constructor) = False \<and>
   writes (snd (sendMessage (JNum 7) constructor)) = [] \<and>
   channel_open open_coordinator \<and> fst (sendMessage (JNum 7) open_coordinator) = True \<and>
   writes (snd (sendMessage (JNum 7) open_coordinator)) = [[55]]"
proof -
  have a: "\<not> channel_open constructor"
    by (simp add: channel_open_def constructor_def)
  have b: "channel_open open_coordinator"
    by (simp add: channel_open_def open_coordinator_def)
  have w0: "writes constructor = []"
    by (simp add: writes_def constructor_def)
  have w1: "writes open_coordinator = []"
    by (simp add: writes_def open_coordinator_def)
  have s: "JSON_stringify (JNum 7) = [55]"
    by (simp add: number_7)
  from a b w0 w1 s sendMessage_open_or_not [of constructor "JNum 7"]
    sendMessage_open_or_not [of open_coordinator "JNum 7"]
  show ?thesis by simp
qed

subsection \<open>\<open>addIceCandidate\<close> and \<open>setRemoteDescription\<close>\<close>

text \<open>
  C4, as stated, at the coordinator that the constructor makes: it has no engine,
  \<open>setRemoteDescription\<close> does nothing, and a candidate submitted after it reaches no
  engine.
\<close>

theorem addIceCandidate_constructor_counterexample:
  "pc (addIceCandidate (JStr (js ''candidate:1'')) (setRemoteDescription JNull constructor)) = None \<and>
   engine_calls (addIceCandidate (JStr (js ''candidate:1'')) (setRemoteDescription JNull constructor)) = []"
  by (simp add: addIceCandidate_def setRemoteDescription_def constructor_def engine_calls_def)

text \<open>
  C4, amended. For every candidate and every coordinator: \<open>addIceCandidate\<close> hands the
  candidate to the engine when the engine holds a remote description, and otherwise
  leaves the coordinator, and so the engine, untouched. When an engine instance exists,
  \<open>setRemoteDescription\<close> commits the description and a candidate submitted after it
  reaches the engine; when none exists, both calls do nothing.
\<close>

theorem addIceCandidate_after_remote:
  "(remote_committed c \<longrightarrow>
      engine_calls (addIceCandidate cand c) = engine_calls c @ [AddIceCandidate cand]) \<and>
   (\<not> remote_committed c \<longrightarrow> addIceCandidate cand c = c) \<and>
   (pc c \<noteq> None \<longrightarrow>
      remote_committed (setRemoteDescription d c) \<and>
      engine_calls (addIceCandidate cand (setRemoteDescription d c)) =
        engine_calls c @ [SetRemoteDescription d, AddIceCandidate cand]) \<and>
   (pc c = None \<longrightarrow> addIceCandidate cand (setRemoteDescription d c) = c)"
  by (auto simp: addIceCandidate_def setRemoteDescription_def remote_committed_def
      engine_calls_def call_def split: option.splits)

theorem addIceCandidate_after_remote_witness:
  "\<not> remote_committed open_coordinator \<and> pc open_coordinator \<noteq> None \<and>
   addIceCandidate (JNum 1) open_coordinator = open_coordinator \<and>
   remote_committed (setRemoteDescription (JNum 2) open_coordinator) \<and>
   engine_calls (addIceCandidate (JNum 1) (setRemoteDescription (JNum 2) open_coordinator)) =
     [SetRemoteDescription (JNum 2), AddIceCandidate (JNum 1)] \<and>
   engine_calls (addIceCandidate (JNum 3) (setRemoteDescription (JNum 2) open_coordinator)) =
     engine_calls (setRemoteDescription (JNum 2) open_coordinator) @ [AddIceCandidate (JNum 3)]"
proof -
  have a: "\<not> remote_committed open_coordinator"
    by (simp add: remote_committed_def open_coordinator_def new_RTCPeerConnection_def)
  have b: "pc open_coordinator \<noteq> None"
    by (simp add: open_coordinator_def)
  have c: "engine_calls open_coordinator = []"
    by (simp add: engine_calls_def open_coordinator_def new_RTCPeerConnection_def)
  from a b c addIceCandidate_after_remote [of open_coordinator "JNum 1" "JNum 2"]
    addIceCandidate_after_remote [of "setRemoteDescription (JNum 2) open_coordinator" "JNum 3" "JNum 2"]
  show ?thesis by simp
qed

subsection \<open>\<open>initAsOfferer\<close> and the gathering wait\<close>

lemma first_complete_later: "first_complete elapsed evs = Some t \<Longrightarrow> elapsed \<le> t"
  by (induction elapsed evs arbitrary: t rule: first_complete.induct) (auto split: if_splits)

lemma fires_complete:
  "(fires_handler ev \<and> iceGatheringState (occur ev e) = Complete) = (ev = GatheringStateChange Complete)"
  by (cases ev) auto

lemma await_gathering_time:
  "fst (await_gathering remaining evs elapsed e) =
     (case first_complete elapsed evs of
        None \<Rightarrow> elapsed + remaining
      | Some t \<Rightarrow> min t (elapsed + remaining))"
proof (induction remaining evs elapsed e rule: await_gathering.induct)
  case (1 remaining elapsed e)
  show ?case by simp
next
  case (2 remaining dt ev evs elapsed e)
  show ?case
  proof (cases "remaining \<le> dt")
    case True
    then show ?thesis
      by (auto split: option.splits dest: first_complete_later)
  next
    case False
    then show ?thesis
      using 2 by (auto simp: fires_complete split: option.splits)
  qed
qed

lemma await_gathering_timeout:
  "never_complete evs \<Longrightarrow>
   await_gathering remaining evs elapsed e =
     (elapsed + remaining, foldl (\<lambda>e ev. occur ev e) e (occurring_before remaining evs))"
  by (induction remaining evs elapsed e rule: await_gathering.induct)
     (auto simp: never_complete_def fires_complete)

lemma never_complete_first: "never_complete evs \<Longrightarrow> first_complete elapsed evs = None"
  by (induction elapsed evs rule: first_complete.induct) (auto simp: never_complete_def)

lemma localDescription_foldl:
  "localDescription e = Some d \<Longrightarrow>
   localDescription (foldl (\<lambda>e ev. occur ev e) e evs) = Some (description_after d evs)"
  by (induction d evs arbitrary: e rule: description_after.induct) auto

text \<open>
  C6. Whatever the engine does after \<open>setLocalDescription\<close>, the gathering wait of
  \<open>initAsOfferer\<close> ends at the first change of the gathering state to complete or after
  5000 ms, whichever comes first, and never later than 5000 ms. When the gathering state
  never becomes complete, \<open>initAsOfferer\<close> resolves at 5000 ms and returns the local
  description as it is then: the offer, or the last update of it that occurred before
  the timer fired.
\<close>

theorem initAsOfferer_bounded_wait:
  "fst (initAsOfferer offer evs c) =
     (case first_complete 0 evs of None \<Rightarrow> 5000 | Some t \<Rightarrow> min t 5000) \<and>
   fst (initAsOfferer offer evs c) \<le> 5000 \<and>
   (never_complete evs \<longrightarrow>
      fst (initAsOfferer offer evs c) = 5000 \<and>
      fst (snd (initAsOfferer offer evs c)) =
        Some (description_after offer (occurring_before 5000 evs)))"
proof -
  let ?e3 = "call (SetLocalDescription offer)
      ((call CreateOffer (call (CreateDataChannel (js ''colors'') True) new_RTCPeerConnection))
         \<lparr>localDescription := Some offer\<rparr>)"
  have g: "iceGatheringState ?e3 \<noteq> Complete"
    by (simp add: call_def new_RTCPeerConnection_def)
  have d: "localDescription ?e3 = Some offer"
    by (simp add: call_def)
  have run: "initAsOfferer offer evs c =
      (fst (await_gathering 5000 evs 0 ?e3),
       localDescription (snd (await_gathering 5000 evs 0 ?e3)),
       c\<lparr>isInitiator := True, pc := Some (snd (await_gathering 5000 evs 0 ?e3)),
          dataChannel := Some \<lparr>label = js ''colors'', ordered = True, readyState = Connecting,
                                written = []\<rparr>\<rparr>)"
    using g by (simp add: initAsOfferer_def waitForIceGathering_def Let_def split: prod.splits)
  have t: "fst (await_gathering 5000 evs 0 ?e3) =
      (case first_complete 0 evs of None \<Rightarrow> 5000 | Some t \<Rightarrow> min t 5000)"
    by (simp add: await_gathering_time split: option.splits)
  have b: "fst (await_gathering 5000 evs 0 ?e3) \<le> 5000"
    unfolding t by (simp split: option.splits)
  have n: "never_complete evs \<longrightarrow>
      fst (await_gathering 5000 evs 0 ?e3) = 5000 \<and>
      localDescription (snd (await_gathering 5000 evs 0 ?e3)) =
        Some (description_after offer (occurring_before 5000 evs))"
    by (simp add: await_gathering_timeout localDescription_foldl [OF d])
  from t b n show ?thesis unfolding run by simp
qed

theorem initAsOfferer_bounded_wait_witness:
  "never_complete stalled_gathering \<and>
   fst (initAsOfferer (JNum 0) stalled_gathering constructor) = 5000 \<and>
   fst (snd (initAsOfferer (JNum 0) stalled_gathering constructor)) = Some (JNum 1) \<and>
   fst (initAsOfferer (JNum 0) quick_gathering constructor) = 350"
proof -
  have a: "never_complete stalled_gathering"
    by (simp add: never_complete_def stalled_gathering_def)
  have b: "description_after (JNum 0) (occurring_before 5000 stalled_gathering) = JNum 1"
    by (simp add: stalled_gathering_def)
  have c: "first_complete 0 quick_gathering = Some 350"
    by (simp add: quick_gathering_def)
  from a b c initAsOfferer_bounded_wait [of "JNum 0" stalled_gathering constructor]
    initAsOfferer_bounded_wait [of "JNum 0" quick_gathering constructor]
  show ?thesis by simp
qed

subsection \<open>\<open>generateSessionId\<close>\<close>

lemma generateSessionId_length:
  "length (generateSessionId random_text) = min 6 (length random_text - 2)"
  by (simp add: generateSessionId_def toUpperCase_def substring_def)

text \<open>
  C7 at \<open>Math.random() = 0.5\<close>, whose text in radix 36 is \<open>0.i\<close>: the identifier is the
  single character \<open>I\<close>.
\<close>

theorem generateSessionId_half:
  "generateSessionId (js ''0.i'') = js ''I'' \<and> length (generateSessionId (js ''0.i'')) = 1"
  by (simp add: generateSessionId_def substring_def toUpperCase_def js_def)

subsection \<open>\<open>storeIceCandidateOnDweet\<close>\<close>

lemma fetch_with_proxy_trace:
  assumes "fetch_with_proxy rl mk u tr = (r, tr')"
  shows "tr' = tr @ [Fetch (mk u)] \<or>
         (\<exists>p. dweetProxyUrl u = Inr p \<and> tr' = tr @ [Fetch (mk u), Fetch (mk p)])"
  using assms
  by (auto simp: fetch_with_proxy_def fetch_def split: sum.splits prod.splits)

lemma candidateObj_fields:
  assumes "candidateObj (Json cand) = Inr obj"
  shows "\<exists>c m d. obj = JObj [(js ''candidate'', c), (js ''sdpMLineIndex'', m), (js ''sdpMid'', d)] \<and>
           (get_prop (Json cand) (js ''sdpMLineIndex'') = Inr Undefined \<longrightarrow> m = JNull) \<and>
           (get_prop (Json cand) (js ''sdpMid'') = Inr Undefined \<longrightarrow> d = JNull)"
proof (cases cand)
  case JNull
  with assms show ?thesis by (simp add: candidateObj_def thenE_def)
next
  case (JObj kvs)
  have own_cases: "\<And>k. own kvs k = Undefined \<or> (\<exists>v. own kvs k = Json v)"
    by (simp add: own_def split: option.splits)
  from own_cases [of "js ''candidate''"] own_cases [of "js ''sdpMLineIndex''"]
    own_cases [of "js ''sdpMid''"] assms JObj
  show ?thesis
    by (auto simp: candidateObj_def thenE_def split: if_splits)
qed (use assms in \<open>auto simp: candidateObj_def thenE_def js_def\<close>)

text \<open>
  C10. Whatever candidate value \<open>storeIceCandidateOnDweet\<close> is given, every request it
  sends (one, or two when the proxy is tried) carries as body the JSON text of
  \<open>{candidate: R, timestamp}\<close>, where the record \<open>R\<close> has exactly the members
  \<open>candidate\<close>, \<open>sdpMLineIndex\<close> and \<open>sdpMid\<close>, in this order; \<open>sdpMLineIndex\<close> and
  \<open>sdpMid\<close> are \<open>null\<close> when the input lacks them.
\<close>

theorem storeIceCandidate_wire_shape:
  assumes "storeIceCandidateOnDweet rl now sessionId (Json cand) isOfferer tr = (r, tr')"
  shows "\<exists>posts. tr' = tr @ map Fetch posts \<and> length posts \<le> 2 \<and>
           (\<forall>req \<in> set posts. \<exists>c m d.
              req_body req =
                Some (JSON_stringify
                  (JObj [(js ''candidate'',
                          JObj [(js ''candidate'', c), (js ''sdpMLineIndex'', m), (js ''sdpMid'', d)]),
                         (js ''timestamp'', JNum now)])) \<and>
              (get_prop (Json cand) (js ''sdpMLineIndex'') = Inr Undefined \<longrightarrow> m = JNull) \<and>
              (get_prop (Json cand) (js ''sdpMid'') = Inr Undefined \<longrightarrow> d = JNull))"
proof (cases "candidateObj (Json cand)")
  case (Inl err)
  with assms have "tr' = tr @ map Fetch []"
    by (simp add: storeIceCandidateOnDweet_def Let_def)
  then show ?thesis by (intro exI [of _ "[]"]) simp
next
  case (Inr obj)
  from candidateObj_fields [OF Inr] obtain c m d where
    obj: "obj = JObj [(js ''candidate'', c), (js ''sdpMLineIndex'', m), (js ''sdpMid'', d)]"
    and m: "get_prop (Json cand) (js ''sdpMLineIndex'') = Inr Undefined \<longrightarrow> m = JNull"
    and d: "get_prop (Json cand) (js ''sdpMid'') = Inr Undefined \<longrightarrow> d = JNull"
    by blast
  let ?u = "dweet_store_url (js ''colormatch-'' @ sessionId @ js ''-ice-'' @ ice_role isOfferer)"
  let ?mk = "post_request (ice_body obj now)"
  obtain r1 tr1 where f: "fetch_with_proxy rl ?mk ?u tr = (r1, tr1)"
    by (cases "fetch_with_proxy rl ?mk ?u tr")
  with assms Inr have tr': "tr' = tr1"
    by (auto simp: storeIceCandidateOnDweet_def Let_def split: sum.splits)
  from fetch_with_proxy_trace [OF f]
  obtain posts where posts: "tr1 = tr @ map Fetch posts" "length posts \<le> 2"
    "\<forall>req \<in> set posts. req_body req = Some (ice_body obj now)"
  proof
    assume a: "\<And>posts. tr1 = tr @ map Fetch posts \<Longrightarrow> length posts \<le> 2 \<Longrightarrow>
      \<forall>req\<in>set posts. req_body req = Some (ice_body obj now) \<Longrightarrow> thesis"
    assume "tr1 = tr @ [Fetch (?mk ?u)]"
    then show thesis using a [of "[?mk ?u]"] by (simp add: post_request_def)
  next
    assume a: "\<And>posts. tr1 = tr @ map Fetch posts \<Longrightarrow> length posts \<le> 2 \<Longrightarrow>
      \<forall>req\<in>set posts. req_body req = Some (ice_body obj now) \<Longrightarrow> thesis"
    assume "\<exists>p. dweetProxyUrl ?u = Inr p \<and> tr1 = tr @ [Fetch (?mk ?u), Fetch (?mk p)]"
    then obtain p where "tr1 = tr @ [Fetch (?mk ?u), Fetch (?mk p)]" by blast
    then show thesis using a [of "[?mk ?u, ?mk p]"] by (simp add: post_request_def)
  qed
  show ?thesis
    using posts tr' obj m d
    by (intro exI [of _ posts]) (auto simp: ice_body_def)
qed

lemma sparse_run:
  "storeIceCandidateOnDweet (relay_ok JNull) 7 (js ''ABC123'') (Json sparse_candidate) True [] =
   (Inr True, [Fetch (post_request
      (ice_body (JObj [(js ''candidate'', JStr (js ''candidate:1'')),
                       (js ''sdpMLineIndex'', JNull), (js ''sdpMid'', JNull)]) 7)
      (dweet_store_url (js ''colormatch-ABC123-ice-offerer'')))])"
  by (simp add: storeIceCandidateOnDweet_def candidateObj_def thenE_def sparse_candidate_def own_def
      fetch_with_proxy_def fetch_def relay_ok_def ice_role_def js_def)

theorem storeIceCandidate_wire_shape_witness:
  "get_prop (Json sparse_candidate) (js ''sdpMLineIndex'') = Inr Undefined \<and>
   get_prop (Json sparse_candidate) (js ''sdpMid'') = Inr Undefined \<and>
   (\<exists>req c. snd (storeIceCandidateOnDweet (relay_ok JNull) 7 (js ''ABC123'')
                   (Json sparse_candidate) True []) = [Fetch req] \<and>
      req_body req =
        Some (JSON_stringify
          (JObj [(js ''candidate'',
                  JObj [(js ''candidate'', c), (js ''sdpMLineIndex'', JNull), (js ''sdpMid'', JNull)]),
                 (js ''timestamp'', JNum 7)])))"
proof -
  have m: "get_prop (Json sparse_candidate) (js ''sdpMLineIndex'') = Inr Undefined"
    and d: "get_prop (Json sparse_candidate) (js ''sdpMid'') = Inr Undefined"
    by (simp_all add: sparse_candidate_def own_def js_def)
  let ?req = "post_request
      (ice_body (JObj [(js ''candidate'', JStr (js ''candidate:1'')),
                       (js ''sdpMLineIndex'', JNull), (js ''sdpMid'', JNull)]) 7)
      (dweet_store_url (js ''colormatch-ABC123-ice-offerer''))"
  from storeIceCandidate_wire_shape [OF sparse_run] obtain posts where
    p: "[Fetch ?req] = [] @ map Fetch posts"
    and b: "\<forall>req \<in> set posts. \<exists>c m d.
              req_body req =
                Some (JSON_stringify
                  (JObj [(js ''candidate'',
                          JObj [(js ''candidate'', c), (js ''sdpMLineIndex'', m), (js ''sdpMid'', d)]),
                         (js ''timestamp'', JNum 7)])) \<and>
              (get_prop (Json sparse_candidate) (js ''sdpMLineIndex'') = Inr Undefined \<longrightarrow> m = JNull) \<and>
              (get_prop (Json sparse_candidate) (js ''sdpMid'') = Inr Undefined \<longrightarrow> d = JNull)"
    by blast
  from p have "posts = [?req]" by (cases posts) auto
  with b m d obtain c where
    "req_body ?req =
        Some (JSON_stringify
          (JObj [(js ''candidate'',
                  JObj [(js ''candidate'', c), (js ''sdpMLineIndex'', JNull), (js ''sdpMid'', JNull)]),
                 (js ''timestamp'', JNum 7)]))"
    by auto
  with m d show ?thesis
    unfolding sparse_run snd_conv by blast
qed

subsection \<open>\<open>retrieveSdpFromDweet\<close>\<close>

lemma encodeURIComponent_length:
  "encodeURIComponent s = Inr e \<Longrightarrow> length s \<le> length e"
proof (induction "length s" arbitrary: s e rule: less_induct)
  case less
  have two: "\<And>cp. 2 \<le> length (percent_encode cp)"
    by (simp add: percent_encode_def utf8_def percent_def)
  show ?case
  proof (cases s)
    case Nil
    then show ?thesis by simp
  next
    case (Cons c cs)
    show ?thesis
    proof (cases "uri_unreserved c")
      case True
      with less.prems Cons obtain r where r: "encodeURIComponent cs = Inr r" "e = c # r"
        by (auto split: sum.splits)
      from less.hyps [of cs r] r Cons show ?thesis by simp
    next
      case nu: False
      show ?thesis
      proof (cases "is_high_surrogate c")
        case True
        with nu less.prems Cons obtain d ds r where
          r: "cs = d # ds" "encodeURIComponent ds = Inr r"
             "e = percent_encode (65536 + (c - 55296) * 1024 + (d - 56320)) @ r"
          by (auto split: if_splits list.splits sum.splits)
        from less.hyps [of ds r] r Cons
          two [of "65536 + (c - 55296) * 1024 + (d - 56320)"]
        show ?thesis by simp
      next
        case False
        with nu less.prems Cons obtain r where
          r: "encodeURIComponent cs = Inr r" "e = percent_encode c @ r"
          by (auto split: if_splits sum.splits)
        from less.hyps [of cs r] r Cons two [of c] show ?thesis by simp
      qed
    qed
  qed
qed

lemma proxy_differs: "dweetProxyUrl u = Inr p \<Longrightarrow> p \<noteq> u"
proof
  assume a: "dweetProxyUrl u = Inr p" and "p = u"
  then obtain e where e: "encodeURIComponent u = Inr e" "u = js ''https://corsproxy.org/?'' @ e"
    by (auto simp: dweetProxyUrl_def split: sum.splits)
  have "length (js ''https://corsproxy.org/?'') = 23" by (simp add: js_def)
  moreover have "length u = length (js ''https://corsproxy.org/?'') + length e"
    by (subst e(2)) (simp only: length_append)
  moreover note encodeURIComponent_length [OF e(1)]
  ultimately have "length u \<le> length e" "length u = 23 + length e" by simp_all
  then show False by simp
qed

lemma attempts_of_simps [simp]:
  "attempts_of u [] = 0"
  "attempts_of u (Sleep n # tr) = attempts_of u tr"
  "attempts_of u (Fetch r # tr) = (if r = get_request u then 1 else 0) + attempts_of u tr"
  "attempts_of u (a @ b) = attempts_of u a + attempts_of u b"
  by (simp_all add: attempts_of_def)

lemma sleeps_of_simps [simp]:
  "sleeps_of [] = []"
  "sleeps_of (Sleep n # tr) = Sleep n # sleeps_of tr"
  "sleeps_of (Fetch r # tr) = sleeps_of tr"
  "sleeps_of (a @ b) = sleeps_of a @ sleeps_of b"
  by (simp_all add: sleeps_of_def)

lemma fetch_count_simps [simp]:
  "fetch_count [] = 0"
  "fetch_count (Sleep n # tr) = fetch_count tr"
  "fetch_count (Fetch r # tr) = Suc (fetch_count tr)"
  "fetch_count (a @ b) = fetch_count a + fetch_count b"
  by (simp_all add: fetch_count_def)

lemma get_request_inject [simp]: "(get_request a = get_request b) = (a = b)"
  by (auto simp: get_request_def)

lemma attempt_requests_count:
  "attempt_requests u fs \<Longrightarrow>
     attempts_of u (map Fetch fs) = 1 \<and> sleeps_of (map Fetch fs) = [] \<and>
     0 < fetch_count (map Fetch fs)"
  by (auto simp: attempt_requests_def dest: proxy_differs)

text \<open>The loop, unfolded once.\<close>

lemma retrieve_loop_done:
  "maxRetries < attempt \<Longrightarrow> retrieve_loop rl u maxRetries attempt tr = (Inr JNull, tr)"
  by (subst retrieve_loop.simps) simp

lemma retrieve_loop_unfold:
  "attempt \<le> maxRetries \<Longrightarrow>
   retrieve_loop rl u maxRetries attempt tr =
     (case retrieve_try rl u maxRetries attempt tr of
        (Inr (Return v), tr1) \<Rightarrow> (Inr v, tr1)
      | (Inr Next, tr1) \<Rightarrow> retrieve_loop rl u maxRetries (attempt + 1) tr1
      | (Inl err, tr1) \<Rightarrow>
          if attempt < maxRetries
          then retrieve_loop rl u maxRetries (attempt + 1) (tr1 @ [Sleep 1500])
          else (Inr JNull, tr1))"
  by (subst retrieve_loop.simps) simp

text \<open>The four ways the request of an attempt can go.\<close>

lemma try_direct:
  "rl (fetch_count tr) (get_request u) = Inr resp \<Longrightarrow>
   retrieve_try rl u maxRetries attempt tr =
     retrieve_response resp maxRetries attempt (tr @ [Fetch (get_request u)])"
  by (simp add: retrieve_try_def fetch_with_proxy_def fetch_def fetch_count_def)

lemma try_no_proxy:
  "rl (fetch_count tr) (get_request u) = Inl err \<Longrightarrow> dweetProxyUrl u = Inl err' \<Longrightarrow>
   retrieve_try rl u maxRetries attempt tr = (Inl err', tr @ [Fetch (get_request u)])"
  by (simp add: retrieve_try_def fetch_with_proxy_def fetch_def fetch_count_def)

lemma try_proxy:
  "rl (fetch_count tr) (get_request u) = Inl err \<Longrightarrow> dweetProxyUrl u = Inr p \<Longrightarrow>
   rl (Suc (fetch_count tr)) (get_request p) = Inr resp \<Longrightarrow>
   retrieve_try rl u maxRetries attempt tr =
     retrieve_response resp maxRetries attempt
       (tr @ [Fetch (get_request u), Fetch (get_request p)])"
  by (simp add: retrieve_try_def fetch_with_proxy_def fetch_def fetch_count_def)

lemma try_proxy_down:
  "rl (fetch_count tr) (get_request u) = Inl err \<Longrightarrow> dweetProxyUrl u = Inr p \<Longrightarrow>
   rl (Suc (fetch_count tr)) (get_request p) = Inl err' \<Longrightarrow>
   retrieve_try rl u maxRetries attempt tr =
     (Inl err', tr @ [Fetch (get_request u), Fetch (get_request p)])"
  by (simp add: retrieve_try_def fetch_with_proxy_def fetch_def fetch_count_def)

lemma try_requests:
  "\<exists>fs. attempt_requests u fs \<and>
     ((\<exists>err. retrieve_try rl u maxRetries attempt tr = (Inl err, tr @ map Fetch fs)) \<or>
      (\<exists>resp. retrieve_try rl u maxRetries attempt tr =
                retrieve_response resp maxRetries attempt (tr @ map Fetch fs)))"
proof (cases "rl (fetch_count tr) (get_request u)")
  case (Inr resp)
  from try_direct [where rl=rl and tr=tr and u=u, OF Inr] show ?thesis
    by (intro exI [of _ "[get_request u]"]) (auto simp: attempt_requests_def)
next
  case (Inl err)
  show ?thesis
  proof (cases "dweetProxyUrl u")
    case pl: (Inl err')
    from try_no_proxy [where rl=rl and tr=tr and u=u, OF Inl pl] show ?thesis
      by (intro exI [of _ "[get_request u]"]) (auto simp: attempt_requests_def)
  next
    case pr: (Inr p)
    show ?thesis
    proof (cases "rl (Suc (fetch_count tr)) (get_request p)")
      case i2: (Inl err2)
      from try_proxy_down [where rl=rl and tr=tr and u=u, OF Inl pr i2] pr show ?thesis
        by (intro exI [of _ "[get_request u, get_request p]"]) (auto simp: attempt_requests_def)
    next
      case r2: (Inr resp)
      from try_proxy [where rl=rl and tr=tr and u=u, OF Inl pr r2] pr show ?thesis
        by (intro exI [of _ "[get_request u, get_request p]"]) (auto simp: attempt_requests_def)
    qed
  qed
qed

lemma response_cases:
  "retrieve_response resp maxRetries attempt tr1 = (Inr Next, tr1) \<or>
   (attempt < maxRetries \<and>
    retrieve_response resp maxRetries attempt tr1 = (Inr Next, tr1 @ [Sleep 1500])) \<or>
   (\<exists>v. retrieve_response resp maxRetries attempt tr1 = (Inr (Return v), tr1)) \<or>
   (\<exists>err. retrieve_response resp maxRetries attempt tr1 = (Inl err, tr1))"
  by (auto simp: retrieve_response_def split: sum.splits)

text \<open>One pass of the loop.\<close>

lemma retrieve_loop_step:
  assumes "attempt \<le> maxRetries"
  shows "\<exists>fs. attempt_requests u fs \<and>
     ((\<exists>v. retrieve_loop rl u maxRetries attempt tr = (Inr v, tr @ map Fetch fs)) \<or>
      (attempt < maxRetries \<and>
       retrieve_loop rl u maxRetries attempt tr =
         retrieve_loop rl u maxRetries (attempt + 1) (tr @ map Fetch fs @ [Sleep 1500])) \<or>
      retrieve_loop rl u maxRetries attempt tr =
         retrieve_loop rl u maxRetries (attempt + 1) (tr @ map Fetch fs))"
proof -
  from try_requests [of u rl maxRetries attempt tr] obtain fs where
    fs: "attempt_requests u fs" and
    t: "(\<exists>err. retrieve_try rl u maxRetries attempt tr = (Inl err, tr @ map Fetch fs)) \<or>
      (\<exists>resp. retrieve_try rl u maxRetries attempt tr =
                retrieve_response resp maxRetries attempt (tr @ map Fetch fs))"
    by blast
  from t have "(\<exists>v. retrieve_loop rl u maxRetries attempt tr = (Inr v, tr @ map Fetch fs)) \<or>
      (attempt < maxRetries \<and>
       retrieve_loop rl u maxRetries attempt tr =
         retrieve_loop rl u maxRetries (attempt + 1) (tr @ map Fetch fs @ [Sleep 1500])) \<or>
      retrieve_loop rl u maxRetries attempt tr =
         retrieve_loop rl u maxRetries (attempt + 1) (tr @ map Fetch fs)"
  proof (elim disjE exE)
    fix err assume "retrieve_try rl u maxRetries attempt tr = (Inl err, tr @ map Fetch fs)"
    then show ?thesis
      by (simp add: retrieve_loop_unfold [OF assms])
  next
    fix resp assume r: "retrieve_try rl u maxRetries attempt tr =
                retrieve_response resp maxRetries attempt (tr @ map Fetch fs)"
    from response_cases [of resp maxRetries attempt "tr @ map Fetch fs"] show ?thesis
      by (elim disjE exE conjE) (simp_all add: retrieve_loop_unfold [OF assms] r)
  qed
  with fs show ?thesis by blast
qed

lemma spaced_delay: "spaced u new \<Longrightarrow> spaced u (Sleep 1500 # new)"
  by (cases new) auto

lemma spaced_attempt:
  "attempt_requests u fs \<Longrightarrow> spaced u (map Fetch fs)"
  "attempt_requests u fs \<Longrightarrow> spaced u new \<Longrightarrow> spaced u (map Fetch fs @ Sleep 1500 # new)"
  by (cases new; auto simp: attempt_requests_def dest: proxy_differs)+

lemma retrieve_loop_bounds:
  "\<exists>v new. retrieve_loop rl u maxRetries attempt tr = (Inr v, tr @ new) \<and>
     attempts_of u new \<le> Suc maxRetries - attempt \<and>
     set (sleeps_of new) \<subseteq> {Sleep 1500} \<and>
     length (sleeps_of new) \<le> maxRetries - attempt"
proof (induction "Suc maxRetries - attempt" arbitrary: attempt tr)
  case 0
  then have "maxRetries < attempt" by simp
  then have "retrieve_loop rl u maxRetries attempt tr = (Inr JNull, tr @ [])"
    by (simp add: retrieve_loop_done)
  then show ?case
    by (intro exI [of _ JNull] exI [of _ "[]"]) simp
next
  case (Suc n)
  then have le: "attempt \<le> maxRetries" and n: "n = Suc maxRetries - (attempt + 1)" by simp_all
  from retrieve_loop_step [OF le, of u rl tr] obtain fs where
    fs: "attempt_requests u fs" and
    step: "(\<exists>v. retrieve_loop rl u maxRetries attempt tr = (Inr v, tr @ map Fetch fs)) \<or>
      (attempt < maxRetries \<and>
       retrieve_loop rl u maxRetries attempt tr =
         retrieve_loop rl u maxRetries (attempt + 1) (tr @ map Fetch fs @ [Sleep 1500])) \<or>
      retrieve_loop rl u maxRetries attempt tr =
         retrieve_loop rl u maxRetries (attempt + 1) (tr @ map Fetch fs)"
    by blast
  note cnt = attempt_requests_count [OF fs]
  from step show ?case
  proof (elim disjE conjE exE)
    fix v assume "retrieve_loop rl u maxRetries attempt tr = (Inr v, tr @ map Fetch fs)"
    with cnt le show ?thesis
      by (intro exI [of _ v] exI [of _ "map Fetch fs"]) simp
  next
    assume lt: "attempt < maxRetries"
      and eq: "retrieve_loop rl u maxRetries attempt tr =
         retrieve_loop rl u maxRetries (attempt + 1) (tr @ map Fetch fs @ [Sleep 1500])"
    from Suc.hyps(1) [OF n, of "tr @ map Fetch fs @ [Sleep 1500]"] obtain v new where
      r: "retrieve_loop rl u maxRetries (attempt + 1) (tr @ map Fetch fs @ [Sleep 1500]) =
            (Inr v, (tr @ map Fetch fs @ [Sleep 1500]) @ new)"
         "attempts_of u new \<le> Suc maxRetries - (attempt + 1)"
         "set (sleeps_of new) \<subseteq> {Sleep 1500}"
         "length (sleeps_of new) \<le> maxRetries - (attempt + 1)"
      by blast
    from r eq cnt lt show ?thesis
      by (intro exI [of _ v] exI [of _ "map Fetch fs @ [Sleep 1500] @ new"]) (simp; arith?)
  next
    assume eq: "retrieve_loop rl u maxRetries attempt tr =
         retrieve_loop rl u maxRetries (attempt + 1) (tr @ map Fetch fs)"
    from Suc.hyps(1) [OF n, of "tr @ map Fetch fs"] obtain v new where
      r: "retrieve_loop rl u maxRetries (attempt + 1) (tr @ map Fetch fs) =
            (Inr v, (tr @ map Fetch fs) @ new)"
         "attempts_of u new \<le> Suc maxRetries - (attempt + 1)"
         "set (sleeps_of new) \<subseteq> {Sleep 1500}"
         "length (sleeps_of new) \<le> maxRetries - (attempt + 1)"
      by blast
    from r eq cnt le show ?thesis
      by (intro exI [of _ v] exI [of _ "map Fetch fs @ new"]) (simp; arith?)
  qed
qed

text \<open>A relay where every request fails.\<close>

lemma response_failed:
  "\<not> ok resp \<Longrightarrow>
   retrieve_response resp maxRetries attempt tr1 =
     (if attempt < maxRetries then (Inr Next, tr1 @ [Sleep 1500]) else (Inr (Return JNull), tr1))"
  by (simp add: retrieve_response_def)

lemma retrieve_loop_failing_step:
  assumes fail: "\<forall>k req. failed (rl k req)" and le: "attempt \<le> maxRetries"
  shows "\<exists>fs. attempt_requests u fs \<and>
     retrieve_loop rl u maxRetries attempt tr =
       (if attempt < maxRetries
        then retrieve_loop rl u maxRetries (attempt + 1) (tr @ map Fetch fs @ [Sleep 1500])
        else (Inr JNull, tr @ map Fetch fs))"
proof -
  let ?k = "fetch_count tr"
  note unfold = retrieve_loop_unfold [OF le, of rl u tr]
  from fail have f0: "failed (rl ?k (get_request u))" by blast
  from fail have f1: "\<And>p. failed (rl (Suc ?k) (get_request p))" by blast
  show ?thesis
  proof (cases "rl ?k (get_request u)")
    case (Inr resp)
    with f0 have "\<not> ok resp" by (simp add: failed_def)
    then show ?thesis
      unfolding unfold try_direct [where rl=rl and tr=tr and u=u, OF Inr]
      by (intro exI [of _ "[get_request u]"]) (simp add: attempt_requests_def response_failed)
  next
    case (Inl err)
    show ?thesis
    proof (cases "dweetProxyUrl u")
      case pl: (Inl err')
      show ?thesis
        unfolding unfold try_no_proxy [where rl=rl and tr=tr and u=u, OF Inl pl]
        by (intro exI [of _ "[get_request u]"]) (simp add: attempt_requests_def)
    next
      case pr: (Inr p)
      show ?thesis
      proof (cases "rl (Suc ?k) (get_request p)")
        case i2: (Inl err2)
        show ?thesis
          unfolding unfold try_proxy_down [where rl=rl and tr=tr and u=u, OF Inl pr i2]
          using pr
          by (intro exI [of _ "[get_request u, get_request p]"]) (simp add: attempt_requests_def)
      next
        case r2: (Inr resp)
        with f1 [of p] have "\<not> ok resp" by (simp add: failed_def)
        then show ?thesis
          unfolding unfold try_proxy [where rl=rl and tr=tr and u=u, OF Inl pr r2]
          using pr
          by (intro exI [of _ "[get_request u, get_request p]"])
             (simp add: attempt_requests_def response_failed)
      qed
    qed
  qed
qed

lemma retrieve_loop_failing:
  assumes fail: "\<forall>k req. failed (rl k req)"
  shows "\<exists>new. retrieve_loop rl u maxRetries attempt tr = (Inr JNull, tr @ new) \<and>
     attempts_of u new = Suc maxRetries - attempt \<and>
     sleeps_of new = replicate (maxRetries - attempt) (Sleep 1500) \<and>
     spaced u new"
proof (induction "Suc maxRetries - attempt" arbitrary: attempt tr)
  case 0
  then have "maxRetries < attempt" by simp
  then have "retrieve_loop rl u maxRetries attempt tr = (Inr JNull, tr @ [])"
    by (simp add: retrieve_loop_done)
  with 0 show ?case
    by (intro exI [of _ "[]"]) simp
next
  case (Suc n)
  then have le: "attempt \<le> maxRetries" and n: "n = Suc maxRetries - (attempt + 1)" by simp_all
  from retrieve_loop_failing_step [OF fail le, of u tr] obtain fs where
    fs: "attempt_requests u fs" and
    step: "retrieve_loop rl u maxRetries attempt tr =
       (if attempt < maxRetries
        then retrieve_loop rl u maxRetries (attempt + 1) (tr @ map Fetch fs @ [Sleep 1500])
        else (Inr JNull, tr @ map Fetch fs))"
    by blast
  note cnt = attempt_requests_count [OF fs]
  show ?case
  proof (cases "attempt < maxRetries")
    case True
    from Suc.hyps(1) [OF n, of "tr @ map Fetch fs @ [Sleep 1500]"] obtain new where
      r: "retrieve_loop rl u maxRetries (attempt + 1) (tr @ map Fetch fs @ [Sleep 1500]) =
            (Inr JNull, (tr @ map Fetch fs @ [Sleep 1500]) @ new)"
         "attempts_of u new = Suc maxRetries - (attempt + 1)"
         "sleeps_of new = replicate (maxRetries - (attempt + 1)) (Sleep 1500)"
         "spaced u new"
      by blast
    have rep: "Sleep 1500 # replicate (maxRetries - (attempt + 1)) (Sleep 1500) =
        replicate (maxRetries - attempt) (Sleep 1500)"
    proof -
      from True have "maxRetries - attempt = Suc (maxRetries - (attempt + 1))" by simp
      then show ?thesis by (simp only: replicate_Suc)
    qed
    have sp: "spaced u (map Fetch fs @ Sleep 1500 # new)"
      by (rule spaced_attempt(2) [OF fs r(4)])
    from r step cnt True rep sp show ?thesis
      by (intro exI [of _ "map Fetch fs @ Sleep 1500 # new"]) (simp; arith?)
  next
    case False
    with le have "attempt = maxRetries" by simp
    with step cnt False spaced_attempt(1) [OF fs] show ?thesis
      by (intro exI [of _ "map Fetch fs"]) simp
  qed
qed

text \<open>A relay that fails \<open>n\<close> requests and then serves a description.\<close>

lemma response_found:
  assumes "ok resp" "json_body resp = Inr data" "find_sdp (Json data) = Inr s" "truthy s"
  shows "\<exists>v. decodeSdp s = Inr v \<and>
     retrieve_response resp maxRetries attempt tr1 = (Inr (Return v), tr1)"
proof -
  from decodeSdp_total [of s] obtain v where "decodeSdp s = Inr v" by blast
  with assms show ?thesis
    by (simp add: retrieve_response_def thenE_def)
qed

lemma retrieve_loop_serving_now:
  assumes up: "\<forall>k req. n \<le> k \<longrightarrow> rl k req = Inr \<lparr>ok = True, json_body = Inr data\<rparr>"
    and s: "find_sdp (Json data) = Inr s" "truthy s"
    and k: "n \<le> fetch_count tr" and le: "attempt \<le> maxRetries"
  shows "fst (retrieve_loop rl u maxRetries attempt tr) = decodeSdp s"
proof -
  let ?resp = "\<lparr>ok = True, json_body = Inr data\<rparr>"
  from up k have r: "rl (fetch_count tr) (get_request u) = Inr ?resp" by blast
  from response_found [of ?resp data s maxRetries attempt "tr @ [Fetch (get_request u)]"] s
  obtain v where "decodeSdp s = Inr v"
    "retrieve_response ?resp maxRetries attempt (tr @ [Fetch (get_request u)]) =
       (Inr (Return v), tr @ [Fetch (get_request u)])" by auto
  then show ?thesis
    by (simp add: retrieve_loop_unfold [OF le] try_direct [where rl=rl and tr=tr and u=u, OF r])
qed

lemma retrieve_loop_serving:
  assumes down: "\<forall>k req. k < n \<longrightarrow> failed (rl k req)"
    and up: "\<forall>k req. n \<le> k \<longrightarrow> rl k req = Inr \<lparr>ok = True, json_body = Inr data\<rparr>"
    and s: "find_sdp (Json data) = Inr s" "truthy s"
  shows "n - fetch_count tr \<le> maxRetries - attempt \<Longrightarrow> attempt \<le> maxRetries \<Longrightarrow>
     fst (retrieve_loop rl u maxRetries attempt tr) = decodeSdp s"
proof (induction "maxRetries - attempt" arbitrary: attempt tr)
  case 0
  then have "n \<le> fetch_count tr" by simp
  from retrieve_loop_serving_now [OF up s this "0.prems"(2)] show ?case .
next
  case (Suc m)
  let ?k = "fetch_count tr"
  let ?resp = "\<lparr>ok = True, json_body = Inr data\<rparr>"
  from Suc.hyps(2) have lt: "attempt < maxRetries" and m: "m = maxRetries - (attempt + 1)"
    and le': "attempt + 1 \<le> maxRetries" by simp_all
  note unfold = retrieve_loop_unfold [OF Suc.prems(2), of rl u tr]
  show ?case
  proof (cases "n \<le> ?k")
    case True
    from retrieve_loop_serving_now [OF up s True Suc.prems(2)] show ?thesis .
  next
    case False
    then have kn: "?k < n" by simp
    with down have f0: "failed (rl ?k (get_request u))" by blast
    have next1: "\<And>tr'. fetch_count tr' = Suc ?k \<Longrightarrow>
        fst (retrieve_loop rl u maxRetries (Suc attempt) tr') = decodeSdp s"
    proof -
      fix tr' assume "fetch_count tr' = Suc ?k"
      with Suc.prems(1) kn lt have "n - fetch_count tr' \<le> maxRetries - (attempt + 1)" by simp
      from Suc.hyps(1) [OF m this le']
      show "fst (retrieve_loop rl u maxRetries (Suc attempt) tr') = decodeSdp s" by simp
    qed
    have next2: "\<And>tr'. fetch_count tr' = Suc (Suc ?k) \<Longrightarrow>
        fst (retrieve_loop rl u maxRetries (Suc attempt) tr') = decodeSdp s"
    proof -
      fix tr' assume "fetch_count tr' = Suc (Suc ?k)"
      with Suc.prems(1) kn lt have "n - fetch_count tr' \<le> maxRetries - (attempt + 1)" by simp
      from Suc.hyps(1) [OF m this le']
      show "fst (retrieve_loop rl u maxRetries (Suc attempt) tr') = decodeSdp s" by simp
    qed
    show ?thesis
    proof (cases "rl ?k (get_request u)")
      case (Inr resp)
      with f0 have "\<not> ok resp" by (simp add: failed_def)
      then show ?thesis
        unfolding unfold try_direct [where rl=rl and tr=tr and u=u, OF Inr]
        using lt by (simp add: response_failed next1)
    next
      case (Inl err)
      show ?thesis
      proof (cases "dweetProxyUrl u")
        case pl: (Inl err')
        show ?thesis
          unfolding unfold try_no_proxy [where rl=rl and tr=tr and u=u, OF Inl pl]
          using lt by (simp add: next1)
      next
        case pr: (Inr p)
        show ?thesis
        proof (cases "n \<le> Suc ?k")
          case True
          with up have r: "rl (Suc ?k) (get_request p) = Inr ?resp" by blast
          from response_found [of ?resp data s maxRetries attempt
              "tr @ [Fetch (get_request u), Fetch (get_request p)]"] s
          obtain v where "decodeSdp s = Inr v"
            "retrieve_response ?resp maxRetries attempt
               (tr @ [Fetch (get_request u), Fetch (get_request p)]) =
             (Inr (Return v), tr @ [Fetch (get_request u), Fetch (get_request p)])" by auto
          then show ?thesis
            unfolding unfold try_proxy [where rl=rl and tr=tr and u=u, OF Inl pr r]
            by simp
        next
          case False
          with down have f1: "failed (rl (Suc ?k) (get_request p))" by simp
          show ?thesis
          proof (cases "rl (Suc ?k) (get_request p)")
            case i2: (Inl err2)
            show ?thesis
              unfolding unfold try_proxy_down [where rl=rl and tr=tr and u=u, OF Inl pr i2]
              using lt by (simp add: next2)
          next
            case r2: (Inr resp)
            with f1 have "\<not> ok resp" by (simp add: failed_def)
            then show ?thesis
              unfolding unfold try_proxy [where rl=rl and tr=tr and u=u, OF Inl pr r2]
              using lt by (simp add: response_failed next2)
          qed
        qed
      qed
    qed
  qed
qed

lemma encodeURIComponent_ABC123: "encodeURIComponent (js ''ABC123'') = Inr (js ''ABC123'')"
  by (simp add: js_def uri_unreserved_def)

lemma find_sdp_garbled: "find_sdp (Json garbled_reply) = Inr (Json (JStr (js ''!!'')))"
  by (simp add: find_sdp_def garbled_reply_def thenE_def own_def js_def)

lemma decodeSdp_garbled: "decodeSdp (Json (JStr (js ''!!''))) = Inr JNull"
proof -
  have "33 \<in> set (js ''!!'')" by (simp add: js_def)
  moreover have "b64_index 33 = None" "\<not> ascii_whitespace 33"
    by (simp_all add: b64_index_def ascii_whitespace_def)
  ultimately show ?thesis
    by (intro decodeSdp_rejects [of 33]) simp_all
qed

text \<open>
  Every run: when the session identifier can be URI-encoded, \<open>retrieveSdpFromDweet\<close>
  returns a value after at most \<open>maxRetries\<close> attempts, and every delay it waits is
  1500 ms. Against a relay whose every request fails (the \<open>fetch\<close> throws or the status
  is not a success) it returns \<open>null\<close> after exactly \<open>maxRetries\<close> attempts, each but
  the first right after a delay of 1500 ms. Against a relay that fails its first \<open>n\<close>
  requests, \<open>n\<close> less than \<open>maxRetries\<close>, and then serves a response with an encoded
  description, it returns what \<open>decodeSdp\<close> makes of that description.
\<close>

lemma retrieveSdpFromDweet_attempts:
  assumes sid: "encodeURIComponent sessionId = Inr sid"
    and u: "u = dweet_latest_url (js ''colormatch-'' @ sid @ js ''-'' @ type)"
  shows
   "(\<exists>v new. retrieveSdpFromDweet rl sessionId type maxRetries tr = (Inr v, tr @ new) \<and>
       attempts_of u new \<le> maxRetries \<and> set (sleeps_of new) \<subseteq> {Sleep 1500} \<and>
       length (sleeps_of new) \<le> maxRetries - 1) \<and>
    ((\<forall>k req. failed (rl k req)) \<longrightarrow>
       (\<exists>new. retrieveSdpFromDweet rl sessionId type maxRetries tr = (Inr JNull, tr @ new) \<and>
          attempts_of u new = maxRetries \<and>
          sleeps_of new = replicate (maxRetries - 1) (Sleep 1500) \<and> spaced u new)) \<and>
    ((\<forall>k req. k < n \<longrightarrow> failed (rl k req)) \<and>
     (\<forall>k req. n \<le> k \<longrightarrow> rl k req = Inr \<lparr>ok = True, json_body = Inr data\<rparr>) \<and>
     find_sdp (Json data) = Inr s \<and> truthy s \<and> n - fetch_count tr < maxRetries \<longrightarrow>
       fst (retrieveSdpFromDweet rl sessionId type maxRetries tr) = decodeSdp s)"
proof -
  have eq: "retrieveSdpFromDweet rl sessionId type maxRetries tr =
      retrieve_loop rl u maxRetries 1 tr"
    by (simp add: retrieveSdpFromDweet_def sid u)
  have a: "\<exists>v new. retrieve_loop rl u maxRetries 1 tr = (Inr v, tr @ new) \<and>
       attempts_of u new \<le> maxRetries \<and> set (sleeps_of new) \<subseteq> {Sleep 1500} \<and>
       length (sleeps_of new) \<le> maxRetries - 1"
    using retrieve_loop_bounds [of rl u maxRetries 1 tr] by simp
  have b: "(\<forall>k req. failed (rl k req)) \<longrightarrow>
       (\<exists>new. retrieve_loop rl u maxRetries 1 tr = (Inr JNull, tr @ new) \<and>
          attempts_of u new = maxRetries \<and>
          sleeps_of new = replicate (maxRetries - 1) (Sleep 1500) \<and> spaced u new)"
    using retrieve_loop_failing [of rl u maxRetries 1 tr] by simp
  have c: "(\<forall>k req. k < n \<longrightarrow> failed (rl k req)) \<and>
     (\<forall>k req. n \<le> k \<longrightarrow> rl k req = Inr \<lparr>ok = True, json_body = Inr data\<rparr>) \<and>
     find_sdp (Json data) = Inr s \<and> truthy s \<and> n - fetch_count tr < maxRetries \<longrightarrow>
       fst (retrieve_loop rl u maxRetries 1 tr) = decodeSdp s"
  proof (intro impI, elim conjE)
    assume h: "\<forall>k req. k < n \<longrightarrow> failed (rl k req)"
      "\<forall>k req. n \<le> k \<longrightarrow> rl k req = Inr \<lparr>ok = True, json_body = Inr data\<rparr>"
      "find_sdp (Json data) = Inr s" "truthy s" "n - fetch_count tr < maxRetries"
    then have "n - fetch_count tr \<le> maxRetries - 1" "1 \<le> maxRetries" by simp_all
    from retrieve_loop_serving [OF h(1) h(2) h(3) h(4) this]
    show "fst (retrieve_loop rl u maxRetries 1 tr) = decodeSdp s" .
  qed
  from a b c show ?thesis unfolding eq by blast
qed

lemma find_sdp_empty: "find_sdp (Json empty_reply) = Inr Undefined"
  by (simp add: find_sdp_def empty_reply_def thenE_def own_def js_def)

lemma session_url_built:
  "dweet_latest_url (js ''colormatch-'' @ js ''ABC123'' @ js ''-'' @ js ''offer'') = session_url"
  by (simp add: session_url_def js_def)

lemma retrieve_loop_empty:
  "retrieve_loop (relay_ok empty_reply) session_url 5 1 [] =
     (Inr JNull, replicate 5 (Fetch (get_request session_url)))"
proof -
  let ?resp = "\<lparr>ok = True, json_body = Inr empty_reply\<rparr>"
  have r: "\<And>tr. relay_ok empty_reply (fetch_count tr) (get_request session_url) = Inr ?resp"
    by (simp add: relay_ok_def)
  have t: "retrieve_try (relay_ok empty_reply) session_url m attempt tr =
      (Inr Next, tr @ [Fetch (get_request session_url)])" for m attempt tr
    by (simp add: try_direct [where rl="relay_ok empty_reply" and tr=tr and u=session_url, OF r]
        retrieve_response_def thenE_def find_sdp_empty)
  show ?thesis
    by (simp add: retrieve_loop_unfold retrieve_loop_done t numeral_eq_Suc)
qed

lemma retrieve_loop_status:
  "retrieve_loop relay_error_status session_url 5 1 [] =
     (Inr JNull,
      [Fetch (get_request session_url), Sleep 1500, Fetch (get_request session_url), Sleep 1500,
       Fetch (get_request session_url), Sleep 1500, Fetch (get_request session_url), Sleep 1500,
       Fetch (get_request session_url)])"
proof -
  let ?resp = "\<lparr>ok = False, json_body = Inl SyntaxError\<rparr>"
  have r: "\<And>tr. relay_error_status (fetch_count tr) (get_request session_url) = Inr ?resp"
    by (simp add: relay_error_status_def)
  have t: "retrieve_try relay_error_status session_url 5 attempt tr =
      (if attempt < 5 then (Inr Next, tr @ [Fetch (get_request session_url), Sleep 1500])
       else (Inr (Return JNull), tr @ [Fetch (get_request session_url)]))" for attempt tr
    by (simp add: try_direct [where rl=relay_error_status and tr=tr and u=session_url, OF r]
        response_failed)
  show ?thesis
    by (simp add: retrieve_loop_unfold retrieve_loop_done t)
qed

lemma retrieve_loop_garbled:
  "retrieve_loop (relay_ok garbled_reply) session_url 5 1 [] =
     (Inr JNull, [Fetch (get_request session_url)])"
proof -
  have r: "relay_ok garbled_reply (fetch_count []) (get_request session_url) =
      Inr \<lparr>ok = True, json_body = Inr garbled_reply\<rparr>"
    by (simp add: relay_ok_def)
  have t: "js ''!!'' \<noteq> []" by (simp add: js_def)
  show ?thesis
    by (simp add: retrieve_loop_unfold retrieve_response_def thenE_def find_sdp_garbled
        decodeSdp_garbled t
        try_direct [where rl="relay_ok garbled_reply" and tr="[]" and u=session_url, OF r])
qed

text \<open>
  C2. Three runs with five attempts allowed. A relay that answers every request with a
  success status and an envelope that holds no description, \<open>{with: []}\<close>: the five
  requests follow one another with no delay between them, since the end of the \<open>try\<close>
  block is reached without a wait. A relay that answers every request with an error
  status: the same five requests, each but the first after a delay of 1500 ms. A relay
  that answers the first request with a description that does not decode: \<open>null\<close> comes
  back after one attempt.
\<close>

theorem retrieveSdpFromDweet_no_delay:
  "retrieveSdpFromDweet (relay_ok empty_reply) (js ''ABC123'') (js ''offer'') 5 [] =
     (Inr JNull, replicate 5 (Fetch (get_request session_url))) \<and>
   retrieveSdpFromDweet relay_error_status (js ''ABC123'') (js ''offer'') 5 [] =
     (Inr JNull,
      [Fetch (get_request session_url), Sleep 1500, Fetch (get_request session_url), Sleep 1500,
       Fetch (get_request session_url), Sleep 1500, Fetch (get_request session_url), Sleep 1500,
       Fetch (get_request session_url)]) \<and>
   retrieveSdpFromDweet (relay_ok garbled_reply) (js ''ABC123'') (js ''offer'') 5 [] =
     (Inr JNull, [Fetch (get_request session_url)])"
  by (simp only: retrieveSdpFromDweet_def encodeURIComponent_ABC123 sum.case session_url_built
      retrieve_loop_empty retrieve_loop_status retrieve_loop_garbled simp_thms)

subsection \<open>\<open>storeSdpOnDweet\<close>\<close>

lemma euro_text: "8364 \<in> set (JSON_stringify euro_offer)"
  by (simp add: euro_offer_def quote_def json_escape_def is_high_surrogate_def is_low_surrogate_def)

lemma encodeSdp_euro: "encodeSdp euro_offer = Inl InvalidCharacterError"
proof -
  have "\<exists>c \<in> set (JSON_stringify euro_offer). 255 < c"
    using euro_text by (intro bexI [of _ 8364]) simp_all
  then show ?thesis by (simp add: encodeSdp_def btoa_def)
qed

lemma plain_text:
  "JSON_stringify plain_offer =
     [123, 34, 116, 121, 112, 101, 34, 58, 34, 111, 102, 102, 101, 114, 34, 44,
      34, 115, 100, 112, 34, 58, 34, 118, 61, 48, 34, 125]"
  by (simp add: plain_offer_def quote_def json_escape_def is_high_surrogate_def
      is_low_surrogate_def js_def)

lemma encodeSdp_plain: "encodeSdp plain_offer = Inr (b64_encode (JSON_stringify plain_offer))"
  by (simp add: encodeSdp_def btoa_def plain_text)

text \<open>
  C3, as stated, at a payload whose description holds the character U+20AC: \<open>btoa\<close>
  throws while the body is built, before the \<open>try\<close>; the function sends no request and
  throws instead of returning.
\<close>

theorem storeSdpOnDweet_unencodable_counterexample:
  "storeSdpOnDweet (relay_ok JNull) 0 (js ''ABC123'') euro_offer (js ''offer'') [] =
     (Inl InvalidCharacterError, [])"
  by (simp add: storeSdpOnDweet_def encodeSdp_euro Let_def)

text \<open>
  C3, amended. For every topic and every payload that \<open>encodeSdp\<close> can encode,
  \<open>storeSdpOnDweet\<close> sends one POST to the relay. If that request is answered, no other
  request follows and the result is the \<open>ok\<close> flag of the answer: false, without a
  retry, on a non-success status. If the request fails at the network level, exactly one
  further POST with the same body goes to the proxy URL that wraps the relay URL, and the
  result is the \<open>ok\<close> flag of its answer, or false when it fails too; when the proxy URL
  cannot be built (a lone surrogate in the topic) the result is false after the one
  request.
\<close>

theorem storeSdpOnDweet_posts:
  assumes enc: "encodeSdp sdp = Inr enc"
    and u: "u = dweet_store_url (js ''colormatch-'' @ sessionId @ js ''-'' @ type)"
    and req: "req = post_request (sdp_body type enc now)"
    and k: "k = fetch_count tr"
  shows
   "(rl k (req u) = Inr resp \<longrightarrow>
       storeSdpOnDweet rl now sessionId sdp type tr = (Inr (ok resp), tr @ [Fetch (req u)])) \<and>
    (rl k (req u) = Inl err \<and> dweetProxyUrl u = Inr p \<and> rl (Suc k) (req p) = Inr resp \<longrightarrow>
       storeSdpOnDweet rl now sessionId sdp type tr =
         (Inr (ok resp), tr @ [Fetch (req u), Fetch (req p)])) \<and>
    (rl k (req u) = Inl err \<and> dweetProxyUrl u = Inr p \<and> rl (Suc k) (req p) = Inl err' \<longrightarrow>
       storeSdpOnDweet rl now sessionId sdp type tr =
         (Inr False, tr @ [Fetch (req u), Fetch (req p)])) \<and>
    (rl k (req u) = Inl err \<and> dweetProxyUrl u = Inl err' \<longrightarrow>
       storeSdpOnDweet rl now sessionId sdp type tr = (Inr False, tr @ [Fetch (req u)]))"
  using enc
  by (auto simp: storeSdpOnDweet_def store_try_def fetch_with_proxy_def fetch_def Let_def
      u req k fetch_count_def)

lemma store_proxy: "dweetProxyUrl store_url = Inr store_proxy_url"
  by (simp add: dweetProxyUrl_def store_url_def store_proxy_url_def dweet_store_url_def js_def
      uri_unreserved_def is_low_surrogate_def is_high_surrogate_def percent_encode_def utf8_def
      percent_def hex_upper_def)

theorem storeSdpOnDweet_posts_witness:
  "storeSdpOnDweet (relay_ok JNull) 7 (js ''ABC123'') plain_offer (js ''offer'') [] =
     (Inr True, [Fetch (plain_request store_url)]) \<and>
   storeSdpOnDweet relay_error_status 7 (js ''ABC123'') plain_offer (js ''offer'') [] =
     (Inr False, [Fetch (plain_request store_url)]) \<and>
   storeSdpOnDweet relay_down 7 (js ''ABC123'') plain_offer (js ''offer'') [] =
     (Inr False, [Fetch (plain_request store_url), Fetch (plain_request store_proxy_url)])"
proof -
  have u: "store_url = dweet_store_url (js ''colormatch-'' @ js ''ABC123'' @ js ''-'' @ js ''offer'')"
    by (simp add: store_url_def js_def)
  have k: "0 = fetch_count []" by (simp add: fetch_count_def)
  note t = storeSdpOnDweet_posts [OF encodeSdp_plain u plain_request_def k]
  have a: "relay_ok JNull 0 (plain_request store_url) = Inr \<lparr>ok = True, json_body = Inr JNull\<rparr>"
    by (simp add: relay_ok_def)
  have b: "relay_error_status 0 (plain_request store_url) =
      Inr \<lparr>ok = False, json_body = Inl SyntaxError\<rparr>"
    by (simp add: relay_error_status_def)
  have c: "relay_down 0 (plain_request store_url) = Inl NetworkError \<and>
      dweetProxyUrl store_url = Inr store_proxy_url \<and>
      relay_down (Suc 0) (plain_request store_proxy_url) = Inl NetworkError"
    by (simp add: relay_down_def store_proxy)
  from a t [of "relay_ok JNull" "\<lparr>ok = True, json_body = Inr JNull\<rparr>"]
  have 1: "storeSdpOnDweet (relay_ok JNull) 7 (js ''ABC123'') plain_offer (js ''offer'') [] =
     (Inr True, [Fetch (plain_request store_url)])" by simp
  from b t [of relay_error_status "\<lparr>ok = False, json_body = Inl SyntaxError\<rparr>"]
  have 2: "storeSdpOnDweet relay_error_status 7 (js ''ABC123'') plain_offer (js ''offer'') [] =
     (Inr False, [Fetch (plain_request store_url)])" by simp
  from c t [of relay_down _ NetworkError store_proxy_url NetworkError]
  have 3: "storeSdpOnDweet relay_down 7 (js ''ABC123'') plain_offer (js ''offer'') [] =
     (Inr False, [Fetch (plain_request store_url), Fetch (plain_request store_proxy_url)])" by simp
  from 1 2 3 show ?thesis by simp
qed

subsection \<open>\<open>retrieveIceCandidatesFromDweet\<close>\<close>

text \<open>
  C9 at a relay that answers with a bare object. \<open>retrieveIceCandidatesFromDweet\<close> reads
  the envelope \<open>{with: [{content, created}]}\<close>, and answers \<open>null\<close> to the bare object
  \<open>{content, created}\<close> and to the bare content \<open>{candidate, timestamp}\<close>, while the
  lines of \<open>retrieveSdpFromDweet\<close> find the description in the envelope and in the bare
  object alike.
\<close>

theorem retrieveIceCandidates_bare_object:
  "retrieveIceCandidatesFromDweet (relay_ok enveloped_ice_reply) coerce (js ''ABC123'') True [] =
     (Inr (Latest (Json sparse_candidate) (Json (JNum 7))), [Fetch (get_request ice_url)]) \<and>
   retrieveIceCandidatesFromDweet (relay_ok bare_ice_reply) coerce (js ''ABC123'') True [] =
     (Inr Null, [Fetch (get_request ice_url)]) \<and>
   retrieveIceCandidatesFromDweet (relay_ok ice_content) coerce (js ''ABC123'') True [] =
     (Inr Null, [Fetch (get_request ice_url)]) \<and>
   find_sdp (Json served_reply) = Inr (Json (JStr (js ''bnVsbA''))) \<and>
   find_sdp (Json bare_sdp_reply) = Inr (Json (JStr (js ''bnVsbA'')))"
proof -
  have u: "dweet_latest_url (js ''colormatch-'' @ js ''ABC123'' @ js ''-ice-'' @ ice_role False) = ice_url"
    by (simp add: ice_url_def ice_role_def js_def)
  have 1: "find_candidate coerce (Json enveloped_ice_reply) =
      Inr (Latest (Json sparse_candidate) (Json (JNum 7)))"
    by (simp add: find_candidate_def enveloped_ice_reply_def ice_content_def sparse_candidate_def
        thenE_def own_def js_def)
  have 2: "find_candidate coerce (Json bare_ice_reply) = Inr Null"
    by (simp add: find_candidate_def bare_ice_reply_def thenE_def own_def js_def)
  have 3: "find_candidate coerce (Json ice_content) = Inr Null"
    by (simp add: find_candidate_def ice_content_def thenE_def own_def js_def)
  have 4: "find_sdp (Json served_reply) = Inr (Json (JStr (js ''bnVsbA'')))"
    by (simp add: find_sdp_def served_reply_def thenE_def own_def js_def)
  have 5: "find_sdp (Json bare_sdp_reply) = Inr (Json (JStr (js ''bnVsbA'')))"
    by (simp add: find_sdp_def bare_sdp_reply_def thenE_def own_def js_def)
  have run: "\<And>data. retrieveIceCandidatesFromDweet (relay_ok data) coerce (js ''ABC123'') True [] =
      (case find_candidate coerce (Json data) of Inl err \<Rightarrow> Inr Null | Inr r \<Rightarrow> Inr r,
       [Fetch (get_request ice_url)])"
    by (simp add: retrieveIceCandidatesFromDweet_def u ice_try_def fetch_with_proxy_def fetch_def
        relay_ok_def thenE_def split: sum.splits)
  from 1 2 3 4 5 show ?thesis by (simp add: run)
qed

subsection \<open>\<open>encodeSdp\<close> and \<open>decodeSdp\<close> as a round trip\<close>

text \<open>Base64: \<open>atob\<close> undoes \<open>btoa\<close> on byte strings.\<close>

lemma b64_index_char: "i < 64 \<Longrightarrow> b64_index (b64_char i) = Some i"
  by (auto simp: b64_index_def b64_char_def)

lemma b64_char_plain:
  "b64_char i \<noteq> 61" "b64_char i \<noteq> 45" "b64_char i \<noteq> 95" "\<not> ascii_whitespace (b64_char i)"
  by (auto simp: b64_char_def ascii_whitespace_def)

lemma pad_length: "(3 - length (a # b # c # r) mod 3) mod 3 = (3 - length r mod 3) mod 3"
proof -
  have "\<And>n::nat. Suc (Suc (Suc n)) mod 3 = n mod 3" by presburger
  then show ?thesis by simp
qed

lemma b64_encode_sextets:
  "b64_encode s = map b64_char (b64_sextets s) @ replicate ((3 - length s mod 3) mod 3) 61"
proof (induction s rule: b64_encode.induct)
  case (4 a b c r)
  then show ?case unfolding pad_length by simp
qed (simp_all add: numeral_2_eq_2)

lemma b64_sextets_small:
  "\<forall>c \<in> set s. c < 256 \<Longrightarrow> \<forall>i \<in> set (b64_sextets s). i < 64"
  by (induction s rule: b64_sextets.induct) auto

lemma sextet_arith:
  "x < 16 \<Longrightarrow> (y * 16 + x) div 16 = y" "x < 16 \<Longrightarrow> (y * 16 + x) mod 16 = x"
  "z < 4 \<Longrightarrow> (y * 4 + z) div 4 = y" "z < 4 \<Longrightarrow> (y * 4 + z) mod 4 = z"
  for x y z :: nat
  by simp_all

lemma b64_decode_sextets:
  "\<forall>c \<in> set s. c < 256 \<Longrightarrow> b64_decode (b64_sextets s) = s"
proof (induction s rule: b64_sextets.induct)
  case 1
  show ?case by simp
next
  case (2 a)
  show ?case by (simp add: sextet_arith)
next
  case (3 a b)
  then have "b div 16 < 16" by auto
  then show ?case by (simp add: sextet_arith)
next
  case (4 a b c r)
  then have "b div 16 < 16" "c div 64 < 4" by auto
  with 4 show ?case by (simp add: sextet_arith)
qed

lemma b64_sextets_residue:
  "(length s mod 3 = 0 \<and> length (b64_sextets s) mod 4 = 0) \<or>
   (length s mod 3 = 1 \<and> length (b64_sextets s) mod 4 = 2) \<or>
   (length s mod 3 = 2 \<and> length (b64_sextets s) mod 4 = 3)"
proof (induction s rule: b64_sextets.induct)
  case (4 a b c r)
  have three: "\<And>n::nat. Suc (Suc (Suc n)) mod 3 = n mod 3" by presburger
  have four: "\<And>n::nat. Suc (Suc (Suc (Suc n))) mod 4 = n mod 4" by presburger
  have "length (a # b # c # r) mod 3 = length r mod 3"
    by (simp add: three)
  moreover have "length (b64_sextets (a # b # c # r)) mod 4 = length (b64_sextets r) mod 4"
    by (simp add: four)
  ultimately show ?case using 4 by presburger
qed simp_all

lemma b64_sextets_length:
  "(4 - length (b64_sextets s) mod 4) mod 4 = (3 - length s mod 3) mod 3"
  "length (b64_sextets s) mod 4 \<noteq> 1"
  using b64_sextets_residue [of s] by auto

lemma strip_padding_pad:
  assumes "k \<le> 2" "61 \<notin> set xs"
  shows "strip_padding (xs @ replicate k 61) = xs"
proof -
  have nl: "xs \<noteq> [] \<Longrightarrow> last xs \<noteq> 61"
    using assms(2) last_in_set by metis
  from assms(1) consider "k = 0" | "k = 1" | "k = 2" by arith
  then show ?thesis
  proof cases
    case 1
    with nl show ?thesis by (auto simp: strip_padding_def Let_def)
  next
    case 2
    with nl show ?thesis by (auto simp: strip_padding_def Let_def)
  next
    case 3
    then have r: "xs @ replicate k 61 = (xs @ [61]) @ [61]" by (simp add: numeral_2_eq_2)
    show ?thesis unfolding r by (simp add: strip_padding_def Let_def butlast_append)
  qed
qed

lemma those_b64_index:
  "\<forall>i \<in> set sx. i < 64 \<Longrightarrow> those (map b64_index (map b64_char sx)) = Some sx"
  by (induction sx) (simp_all add: b64_index_char)

lemma pad_le: "(3 - (n::nat) mod 3) mod 3 \<le> 2"
proof -
  have "(3 - n mod 3) mod 3 < 3" by simp
  then show ?thesis by simp
qed

lemma padded_length:
  fixes n m :: nat
  assumes "(n mod 3 = 0 \<and> m mod 4 = 0) \<or> (n mod 3 = 1 \<and> m mod 4 = 2) \<or>
           (n mod 3 = 2 \<and> m mod 4 = 3)"
  shows "(m + (3 - n mod 3) mod 3) mod 4 = 0"
  using assms
proof (elim disjE conjE)
  assume "n mod 3 = 0" "m mod 4 = 0"
  then show ?thesis by simp
next
  assume a: "n mod 3 = 1" "m mod 4 = 2"
  have "(m + 2) mod 4 = (m mod 4 + 2) mod 4" by (rule mod_add_left_eq [symmetric])
  with a have "(m + 2) mod 4 = 0" by simp
  with a show ?thesis by simp
next
  assume a: "n mod 3 = 2" "m mod 4 = 3"
  have "(m + 1) mod 4 = (m mod 4 + 1) mod 4" by (rule mod_add_left_eq [symmetric])
  with a have "(m + 1) mod 4 = 0" by simp
  with a show ?thesis by simp
qed

lemma pad_not_ws: "\<not> ascii_whitespace 61"
  by (simp add: ascii_whitespace_def)

lemma atob_b64_encode:
  assumes bytes: "\<forall>c \<in> set s. c < 256"
  shows "atob (b64_encode s) = Inr s"
proof -
  define sx where "sx = b64_sextets s"
  define body where "body = map b64_char sx"
  define k where "k = (3 - length s mod 3) mod 3"
  define d1 where "d1 = filter (\<lambda>c. \<not> ascii_whitespace c) (b64_encode s)"
  define d2 where "d2 = (if length d1 mod 4 = 0 then strip_padding d1 else d1)"
  have e: "b64_encode s = body @ replicate k 61"
    unfolding body_def sx_def k_def by (rule b64_encode_sextets)
  have "\<forall>c \<in> set (body @ replicate k 61). \<not> ascii_whitespace c"
    by (auto simp: body_def b64_char_plain pad_not_ws)
  then have d1: "d1 = body @ replicate k 61"
    unfolding d1_def e by (rule filter_True)
  have no_pad: "61 \<notin> set body" by (auto simp: body_def b64_char_plain)
  have "length d1 = length sx + k" by (simp add: d1 body_def)
  then have len: "length d1 mod 4 = 0"
    using padded_length [OF b64_sextets_residue [of s]] by (simp add: sx_def k_def)
  have "strip_padding d1 = body"
    unfolding d1 k_def by (rule strip_padding_pad [OF pad_le no_pad])
  with len have d2: "d2 = body" by (simp add: d2_def)
  have l1: "length body mod 4 \<noteq> 1"
    using b64_sextets_length(2) [of s] by (simp add: body_def sx_def)
  have idx: "those (map b64_index body) = Some sx"
    unfolding body_def sx_def by (rule those_b64_index [OF b64_sextets_small [OF bytes]])
  have dec: "b64_decode sx = s"
    unfolding sx_def by (rule b64_decode_sextets [OF bytes])
  have "atob (b64_encode s) =
      (if length d2 mod 4 = 1 then Inl InvalidCharacterError
       else (case those (map b64_index d2) of
               None \<Rightarrow> Inl InvalidCharacterError
             | Some sextets \<Rightarrow> Inr (b64_decode sextets)))"
    by (simp only: atob_def Let_def d1_def d2_def)
  also have "\<dots> = Inr s"
    unfolding d2 using l1 by (simp only: idx dec if_False option.case)
  finally show ?thesis .
qed

lemma replace_all_absent: "a \<notin> set xs \<Longrightarrow> replace_all a b xs = xs"
  by (induction xs) (auto simp: replace_all_def)

lemma replace_all_back:
  "45 \<notin> set xs \<Longrightarrow> 95 \<notin> set xs \<Longrightarrow>
   replace_all 95 47 (replace_all 45 43 (replace_all 47 95 (replace_all 43 45 xs))) = xs"
  by (induction xs) (auto simp: replace_all_def)

lemma replace_all_append: "replace_all a b (xs @ ys) = replace_all a b xs @ replace_all a b ys"
  by (simp add: replace_all_def)

lemma replace_all_pad: "a \<noteq> 61 \<Longrightarrow> replace_all a b (replicate k 61) = replicate k 61"
  by (simp add: replace_all_def)

lemma replace_all_no_pad:
  "61 \<notin> set xs \<Longrightarrow> 61 \<notin> set (replace_all 47 95 (replace_all 43 45 xs))"
  by (induction xs) (auto simp: replace_all_def)

lemma dropWhile_none: "\<forall>x \<in> set xs. \<not> P x \<Longrightarrow> dropWhile P xs = xs"
  by (cases xs) auto

lemma b64_body_plain:
  "61 \<notin> set (map b64_char sx)" "45 \<notin> set (map b64_char sx)" "95 \<notin> set (map b64_char sx)"
  by (auto simp: b64_char_plain)

lemma b64_encode_length: "length (b64_encode s) mod 4 = 0"
  using padded_length [OF b64_sextets_residue [of s]] by (simp add: b64_encode_sextets)

lemma to_base64url_encode:
  "to_base64url (b64_encode s) = replace_all 47 95 (replace_all 43 45 (map b64_char (b64_sextets s)))"
proof -
  let ?body = "map b64_char (b64_sextets s)"
  let ?k = "(3 - length s mod 3) mod 3"
  let ?A = "replace_all 47 95 (replace_all 43 45 ?body)"
  have "replace_all 47 95 (replace_all 43 45 (b64_encode s)) = ?A @ replicate ?k 61"
    by (simp add: b64_encode_sextets replace_all_append replace_all_pad del: map_map)
  then have "to_base64url (b64_encode s) = rev (dropWhile (\<lambda>c. c = 61) (replicate ?k 61 @ rev ?A))"
    by (simp add: to_base64url_def)
  also have "dropWhile (\<lambda>c. c = 61) (replicate ?k 61 @ rev ?A) = dropWhile (\<lambda>c. c = 61) (rev ?A)"
    by (rule dropWhile_append2) simp
  also have "dropWhile (\<lambda>c. c = 61) (rev ?A) = rev ?A"
    using replace_all_no_pad [OF b64_body_plain(1) [of "b64_sextets s"]]
    by (intro dropWhile_none) auto
  finally show ?thesis by simp
qed

lemma decodeSdp_try_encoded:
  assumes bytes: "\<forall>c \<in> set t. c < 256"
  shows "decodeSdp_try (Json (JStr (b64_encode t))) = JSON_parse t"
proof -
  let ?e = "b64_encode t"
  have plain: "45 \<notin> set ?e" "95 \<notin> set ?e"
    by (auto simp: b64_encode_sextets b64_char_plain)
  have same: "replace_all 95 47 (replace_all 45 43 ?e) = ?e"
    by (simp add: replace_all_absent plain)
  show ?thesis
    by (simp add: decodeSdp_try_def Let_def same b64_encode_length atob_b64_encode [OF bytes])
qed

lemma decodeSdp_try_urlsafe:
  assumes bytes: "\<forall>c \<in> set t. c < 256"
  shows "decodeSdp_try (Json (JStr (to_base64url (b64_encode t)))) = JSON_parse t"
proof -
  let ?body = "map b64_char (b64_sextets t)"
  have restored: "replace_all 95 47 (replace_all 45 43 (to_base64url (b64_encode t))) = ?body"
    unfolding to_base64url_encode
    by (rule replace_all_back [OF b64_body_plain(2) b64_body_plain(3)])
  have padded: "?body @ replicate ((4 - length (b64_sextets t) mod 4) mod 4) 61 = b64_encode t"
    using b64_sextets_length(1) [of t] by (simp add: b64_encode_sextets)
  show ?thesis
    by (simp add: decodeSdp_try_def Let_def restored padded atob_b64_encode [OF bytes] del: map_map)
qed

text \<open>JSON: \<open>JSON.parse\<close> undoes \<open>JSON.stringify\<close> on the serializable values.\<close>

lemma hex_value_lower: "d < 16 \<Longrightarrow> hex_value (hex_lower d) = Some d"
  by (auto simp: hex_value_def hex_lower_def)

lemma hex_split:
  fixes c :: nat
  assumes "c < 65536"
  shows "(c div 4096 mod 16) * 4096 + (c div 256 mod 16) * 256 + (c div 16 mod 16) * 16 + c mod 16 = c"
proof -
  define p q r t x y where "p = c div 4096" and "q = c div 256 mod 16" and "r = c div 16 mod 16"
    and "t = c mod 16" and "x = c div 16" and "y = c div 256"
  have d1: "x div 16 = y" by (simp add: x_def y_def div_mult2_eq [symmetric])
  have d2: "y div 16 = p" by (simp add: y_def p_def div_mult2_eq [symmetric])
  have e1: "c = x * 16 + t" by (simp add: x_def t_def)
  have xr: "x mod 16 = r" by (simp only: x_def r_def)
  have yq: "y mod 16 = q" by (simp only: y_def q_def)
  have "x div 16 * 16 + x mod 16 = x" by (rule div_mult_mod_eq)
  then have e2: "x = y * 16 + r" by (simp only: d1 xr)
  have "y div 16 * 16 + y mod 16 = y" by (rule div_mult_mod_eq)
  then have e3: "y = p * 16 + q" by (simp only: d2 yq)
  have a: "c div 4096 mod 16 = p" using assms by (simp add: p_def)
  have "p * 4096 + q * 256 + r * 16 + t = ((p * 16 + q) * 16 + r) * 16 + t"
    by (simp add: algebra_simps)
  also have "\<dots> = c" by (simp only: e3 [symmetric] e2 [symmetric] e1 [symmetric])
  finally show ?thesis by (simp only: a q_def r_def t_def)
qed

lemma hex4_escape:
  assumes "c < 65536"
  shows "hex4 (hex_lower (c div 4096 mod 16)) (hex_lower (c div 256 mod 16))
           (hex_lower (c div 16 mod 16)) (hex_lower (c mod 16)) = Some c"
  by (simp add: hex4_def hex_value_lower hex_split [OF assms])

text \<open>What the parser makes of the escape of one code unit.\<close>

lemma parse_unicode_escape:
  assumes "c < 65536"
  shows "parse_chars (unicode_escape c @ tail) =
           (case parse_chars tail of None \<Rightarrow> None | Some (s, r) \<Rightarrow> Some (c # s, r))"
  by (simp add: unicode_escape_def hex4_escape [OF assms])

lemma parse_json_escape:
  "parse_chars (json_escape c @ tail) =
     (case parse_chars tail of None \<Rightarrow> None | Some (s, r) \<Rightarrow> Some (c # s, r))"
proof -
  consider (short) "c = 8 \<or> c = 9 \<or> c = 10 \<or> c = 12 \<or> c = 13 \<or> c = 34 \<or> c = 92"
    | (uni) "\<not> (c = 8 \<or> c = 9 \<or> c = 10 \<or> c = 12 \<or> c = 13 \<or> c = 34 \<or> c = 92)"
        "c < 32 \<or> is_high_surrogate c \<or> is_low_surrogate c"
    | (raw) "\<not> (c = 8 \<or> c = 9 \<or> c = 10 \<or> c = 12 \<or> c = 13 \<or> c = 34 \<or> c = 92)"
        "\<not> (c < 32 \<or> is_high_surrogate c \<or> is_low_surrogate c)"
    by blast
  then show ?thesis
  proof cases
    case short
    then show ?thesis
      by (elim disjE; clarsimp simp: json_escape_def unescape_def)
  next
    case uni
    then have "c < 65536"
      by (auto simp: is_high_surrogate_def is_low_surrogate_def)
    from parse_unicode_escape [OF this, of tail] uni show ?thesis
      by (simp add: json_escape_def)
  next
    case raw
    then show ?thesis
      by (simp add: json_escape_def)
  qed
qed

lemma parse_quote_body: "parse_chars (quote_body s @ 34 # rest) = Some (s, rest)"
proof (induction s rule: quote_body.induct)
  case 1
  show ?case by simp
next
  case (2 c cs)
  show ?case
  proof (cases "is_high_surrogate c")
    case False
    with 2 show ?thesis by (simp add: parse_json_escape)
  next
    case high: True
    show ?thesis
    proof (cases cs)
      case Nil
      with high show ?thesis
        using parse_json_escape [of c "34 # rest"] by simp
    next
      case (Cons d ds)
      show ?thesis
      proof (cases "is_low_surrogate d")
        case True
        with high Cons 2 show ?thesis
          by (simp add: is_high_surrogate_def is_low_surrogate_def)
      next
        case False
        with high Cons 2 show ?thesis
          using parse_json_escape [of c "quote_body cs @ 34 # rest"] by simp
      qed
    qed
  qed
qed

lemma define_property_last:
  assumes "k \<notin> fst ` set kvs" "\<forall>k' \<in> fst ` set kvs. precedes k' k"
  shows "define_property k v kvs = kvs @ [(k, v)]"
proof (cases "array_index k")
  case None
  with assms(1) show ?thesis by (simp add: define_property_def)
next
  case (Some i)
  define before where
    "before = (\<lambda>(k' :: jsstring, v' :: json). case array_index k' of None \<Rightarrow> False | Some i' \<Rightarrow> i' < i)"
  have "\<forall>p \<in> set kvs. before p"
  proof
    fix p assume p: "p \<in> set kvs"
    then have "precedes (fst p) k" using assms(2) by auto
    with Some show "before p"
      by (cases p) (auto simp: precedes_def before_def split: option.splits)
  qed
  then have "takeWhile before kvs = kvs" "dropWhile before kvs = []" by auto
  with assms(1) Some show ?thesis
    by (simp add: define_property_def Let_def before_def [symmetric])
qed

lemma build_object_ordered:
  assumes "enumeration_order kvs"
  shows "build_object kvs = kvs"
  using assms
proof (induction kvs rule: rev_induct)
  case Nil
  show ?case by (simp add: build_object_def)
next
  case (snoc p kvs)
  obtain k v where p: "p = (k, v)" by (cases p)
  from snoc.prems have ord: "enumeration_order kvs"
    and new: "k \<notin> fst ` set kvs" and prec: "\<forall>k' \<in> fst ` set kvs. precedes k' k"
    by (auto simp: enumeration_order_def p sorted_wrt_append)
  have "build_object (kvs @ [p]) = define_property k v (build_object kvs)"
    by (simp add: build_object_def p)
  also have "\<dots> = define_property k v kvs" using snoc.IH [OF ord] by simp
  also have "\<dots> = kvs @ [(k, v)]" by (rule define_property_last [OF new prec])
  finally show ?case by (simp add: p)
qed

lemma stringify_first: "\<exists>c t. JSON_stringify v = c # t \<and> starts_value c"
proof (cases v)
  case (JNum i)
  from number_first [of i] obtain c t where "number_to_string i = c # t" "c = 45 \<or> is_digit c"
    by blast
  with JNum show ?thesis by (auto simp: starts_value_def)
qed (auto simp: starts_value_def js_def quote_def)

lemma starts_value_plain:
  "starts_value c \<Longrightarrow> \<not> json_whitespace c \<and> c \<noteq> 93 \<and> c \<noteq> 125 \<and> c \<noteq> 44"
  by (auto simp: starts_value_def json_whitespace_def is_digit_def)

lemma skip_ws_closes: "closes rest \<Longrightarrow> skip_ws rest = rest"
  by (cases rest) (auto simp: closes_def skip_ws_def json_whitespace_def)

lemma skip_ws_start: "\<not> json_whitespace c \<Longrightarrow> skip_ws (c # t) = c # t"
  by (simp add: skip_ws_def)

lemma closes_number:
  "closes rest \<Longrightarrow>
   rest = [] \<or> (\<not> is_digit (hd rest) \<and> hd rest \<noteq> 46 \<and> hd rest \<noteq> 101 \<and> hd rest \<noteq> 69)"
  by (auto simp: closes_def is_digit_def)

lemma parse_value_null:
  "parse_value (Suc f) (js ''null'' @ rest) = Some (JNull, rest)"
  by (simp add: js_def skip_ws_def json_whitespace_def expect_def)

lemma parse_value_bool:
  "parse_value (Suc f) ((if b then js ''true'' else js ''false'') @ rest) = Some (JBool b, rest)"
  by (simp add: js_def skip_ws_def json_whitespace_def expect_def)

lemma parse_value_number:
  assumes "closes rest" and d: "to_double i = JNum i"
  shows "parse_value (Suc f) (number_to_string i @ rest) = Some (JNum i, rest)"
proof -
  from number_first [of i] obtain c t where
    ct: "number_to_string i = c # t" "c = 45 \<or> is_digit c" by blast
  then have plain: "\<not> json_whitespace c" "c \<noteq> 110" "c \<noteq> 116" "c \<noteq> 102" "c \<noteq> 34"
    "c \<noteq> 91" "c \<noteq> 123"
    by (auto simp: json_whitespace_def is_digit_def)
  have "parse_value (Suc f) ((c # t) @ rest) = parse_number ((c # t) @ rest)"
    using plain by (simp add: skip_ws_def)
  with number_roundtrip [OF d closes_number [OF assms(1)]] ct show ?thesis by simp
qed

lemma parse_value_string:
  "parse_value (Suc f) (quote s @ rest) = Some (JStr s, rest)"
  by (simp add: quote_def skip_ws_def json_whitespace_def parse_quote_body)

lemma parse_value_empty_array:
  "parse_value (Suc f) (91 # [] @ 93 # rest) = Some (JArr [], rest)"
  by (simp add: skip_ws_def json_whitespace_def)

lemma parse_value_array:
  assumes "parse_elements f (c # t @ 93 # rest) = Some (xs, rest)" "starts_value c"
  shows "parse_value (Suc f) (91 # (c # t) @ 93 # rest) = Some (JArr xs, rest)"
  using assms starts_value_plain [of c]
  by (simp add: skip_ws_def json_whitespace_def)

lemma parse_value_empty_object:
  "parse_value (Suc f) (123 # [] @ 125 # rest) = Some (JObj [], rest)"
  by (simp add: skip_ws_def json_whitespace_def)

lemma parse_value_object:
  assumes "parse_members f (34 # t @ 125 # rest) = Some (kvs, rest)"
  shows "parse_value (Suc f) (123 # (34 # t) @ 125 # rest) = Some (JObj (build_object kvs), rest)"
  using assms by (simp add: skip_ws_def json_whitespace_def)

lemma parse_elements_last:
  assumes "parse_value f (t @ 93 # rest) = Some (x, 93 # rest)"
  shows "parse_elements (Suc f) (t @ 93 # rest) = Some ([x], rest)"
  using assms by (simp add: skip_ws_def json_whitespace_def)

lemma parse_elements_more:
  assumes "parse_value f (t @ 44 # later) = Some (x, 44 # later)"
    "parse_elements f later = Some (xs, rest)"
  shows "parse_elements (Suc f) (t @ 44 # later) = Some (x # xs, rest)"
  using assms by (simp add: skip_ws_def json_whitespace_def)

lemma parse_members_last:
  assumes "parse_value f (t @ 125 # rest) = Some (v, 125 # rest)"
  shows "parse_members (Suc f) (quote k @ 58 # t @ 125 # rest) = Some ([(k, v)], rest)"
  using assms by (simp add: quote_def skip_ws_def json_whitespace_def parse_quote_body)

lemma parse_members_more:
  assumes "parse_value f (t @ 44 # later) = Some (v, 44 # later)"
    "parse_members f later = Some (kvs, rest)"
  shows "parse_members (Suc f) (quote k @ 58 # t @ 44 # later) = Some ((k, v) # kvs, rest)"
  using assms by (simp add: quote_def skip_ws_def json_whitespace_def parse_quote_body)

lemma closes_simps [simp]: "closes []" "closes (44 # r)" "closes (93 # r)" "closes (125 # r)"
  by (simp_all add: closes_def)

lemma elements_first:
  assumes "xs \<noteq> []"
  shows "\<exists>c t. stringify_elements xs = c # t \<and> starts_value c"
proof -
  from assms obtain x ys where xs: "xs = x # ys" by (cases xs) auto
  from stringify_first [of x] obtain c t where
    ct: "JSON_stringify x = c # t" "starts_value c" by blast
  show ?thesis
  proof (cases ys)
    case Nil
    with xs ct show ?thesis by simp
  next
    case (Cons y zs)
    with xs ct show ?thesis by simp
  qed
qed

lemma members_first:
  "kvs \<noteq> [] \<Longrightarrow> \<exists>t. stringify_members kvs = 34 # t"
  by (cases kvs rule: stringify_members.cases) (simp_all add: quote_def)

lemma fuel_Suc: "2 * length (c # t) \<le> f \<Longrightarrow> \<exists>f'. f = Suc f' \<and> 2 * length t + 1 \<le> f'"
  by (cases f) auto

lemma parse_stringify:
  "\<forall>f rest. serializable v \<longrightarrow> closes rest \<longrightarrow> 2 * length (JSON_stringify v) \<le> f \<longrightarrow>
      parse_value f (JSON_stringify v @ rest) = Some (v, rest)"
  "xs \<noteq> [] \<longrightarrow> (\<forall>x \<in> set xs. serializable x) \<longrightarrow>
     (\<forall>f rest. 2 * length (stringify_elements xs) + 1 \<le> f \<longrightarrow>
      parse_elements f (stringify_elements xs @ 93 # rest) = Some (xs, rest))"
  "kvs \<noteq> [] \<longrightarrow> (\<forall>v \<in> set (map snd kvs). serializable v) \<longrightarrow>
     (\<forall>f rest. 2 * length (stringify_members kvs) + 1 \<le> f \<longrightarrow>
      parse_members f (stringify_members kvs @ 125 # rest) = Some (kvs, rest))"
proof (induction v and xs and kvs rule: JSON_stringify_stringify_elements_stringify_members.induct)
  case 1
  show ?case
  proof (intro allI impI)
    fix f rest assume "2 * length (JSON_stringify JNull) \<le> f"
    then obtain f' where "f = Suc f'" by (cases f) (auto simp: js_def)
    then show "parse_value f (JSON_stringify JNull @ rest) = Some (JNull, rest)"
      by (simp only: JSON_stringify.simps parse_value_null)
  qed
next
  case (2 b)
  show ?case
  proof (intro allI impI)
    fix f rest assume "2 * length (JSON_stringify (JBool b)) \<le> f"
    then obtain f' where "f = Suc f'" by (cases f) (auto simp: js_def split: if_splits)
    then show "parse_value f (JSON_stringify (JBool b) @ rest) = Some (JBool b, rest)"
      by (simp only: JSON_stringify.simps parse_value_bool)
  qed
next
  case (3 i)
  show ?case
  proof (intro allI impI)
    fix f rest assume s: "serializable (JNum i)" and c: "closes rest"
      and "2 * length (JSON_stringify (JNum i)) \<le> f"
    moreover from number_first [of i] have "number_to_string i \<noteq> []" by auto
    ultimately obtain f' where "f = Suc f'" by (cases f) auto
    moreover from s have "to_double i = JNum i" by simp
    ultimately show "parse_value f (JSON_stringify (JNum i) @ rest) = Some (JNum i, rest)"
      by (simp only: JSON_stringify.simps parse_value_number [OF c])
  qed
next
  case (4 n)
  show ?case by simp
next
  case (5 s)
  show ?case
  proof (intro allI impI)
    fix f rest assume "2 * length (JSON_stringify (JStr s)) \<le> f"
    then obtain f' where "f = Suc f'" by (cases f) (auto simp: quote_def)
    then show "parse_value f (JSON_stringify (JStr s) @ rest) = Some (JStr s, rest)"
      by (simp only: JSON_stringify.simps parse_value_string)
  qed
next
  case (6 xs)
  show ?case
  proof (intro allI impI)
    fix f rest assume s: "serializable (JArr xs)"
      and "2 * length (JSON_stringify (JArr xs)) \<le> f"
    then obtain f' where f: "f = Suc f'" "2 * length (stringify_elements xs) + 1 \<le> f'"
      by (cases f) auto
    show "parse_value f (JSON_stringify (JArr xs) @ rest) = Some (JArr xs, rest)"
    proof (cases "xs = []")
      case True
      then show ?thesis using parse_value_empty_array [of f' rest] f by simp
    next
      case False
      from elements_first [OF False] obtain c t where
        ct: "stringify_elements xs = c # t" "starts_value c" by blast
      from s have "\<forall>x \<in> set xs. serializable x" by simp
      with 6 False f(2)
      have "parse_elements f' (stringify_elements xs @ 93 # rest) = Some (xs, rest)"
        by blast
      then have "parse_elements f' (c # t @ 93 # rest) = Some (xs, rest)" by (simp add: ct)
      from parse_value_array [OF this ct(2)] show ?thesis by (simp add: f ct)
    qed
  qed
next
  case (7 kvs)
  show ?case
  proof (intro allI impI)
    fix f rest assume s: "serializable (JObj kvs)"
      and "2 * length (JSON_stringify (JObj kvs)) \<le> f"
    then obtain f' where f: "f = Suc f'" "2 * length (stringify_members kvs) + 1 \<le> f'"
      by (cases f) auto
    from s have ord: "build_object kvs = kvs" by (simp add: build_object_ordered)
    show "parse_value f (JSON_stringify (JObj kvs) @ rest) = Some (JObj kvs, rest)"
    proof (cases "kvs = []")
      case True
      then show ?thesis using parse_value_empty_object [of f' rest] f by simp
    next
      case False
      from members_first [OF False] obtain t where t: "stringify_members kvs = 34 # t" by blast
      from s have "\<forall>v \<in> set (map snd kvs). serializable v" by simp
      with 7 False f(2)
      have "parse_members f' (stringify_members kvs @ 125 # rest) = Some (kvs, rest)"
        by blast
      then have "parse_members f' (34 # t @ 125 # rest) = Some (kvs, rest)" by (simp add: t)
      from parse_value_object [OF this] show ?thesis by (simp add: f t ord)
    qed
  qed
next
  case 8
  show ?case by simp
next
  case (9 x)
  show ?case
  proof (intro allI impI)
    fix f rest assume s: "\<forall>y \<in> set [x]. serializable y"
      and "2 * length (stringify_elements [x]) + 1 \<le> f"
    then obtain f' where f: "f = Suc f'" "2 * length (JSON_stringify x) \<le> f'"
      by (cases f) auto
    from 9 s f(2) have "parse_value f' (JSON_stringify x @ 93 # rest) = Some (x, 93 # rest)"
      by simp
    from parse_elements_last [OF this]
    show "parse_elements f (stringify_elements [x] @ 93 # rest) = Some ([x], rest)"
      by (simp add: f)
  qed
next
  case (10 x y ys)
  show ?case
  proof (intro allI impI)
    fix f rest assume s: "\<forall>z \<in> set (x # y # ys). serializable z"
      and a: "2 * length (stringify_elements (x # y # ys)) + 1 \<le> f"
    then obtain f' where f: "f = Suc f'" "2 * length (JSON_stringify x) \<le> f'"
      "2 * length (stringify_elements (y # ys)) + 1 \<le> f'"
      by (cases f) auto
    let ?later = "stringify_elements (y # ys) @ 93 # rest"
    from 10(1) s f(2)
    have v: "parse_value f' (JSON_stringify x @ 44 # ?later) = Some (x, 44 # ?later)"
      by simp
    from 10(2) s f(3) have m: "parse_elements f' ?later = Some (y # ys, rest)" by simp
    from parse_elements_more [OF v m]
    show "parse_elements f (stringify_elements (x # y # ys) @ 93 # rest) = Some (x # y # ys, rest)"
      by (simp add: f)
  qed
next
  case 11
  show ?case by simp
next
  case (12 k v)
  show ?case
  proof (intro allI impI)
    fix f rest assume s: "\<forall>w \<in> set (map snd [(k, v)]). serializable w"
      and "2 * length (stringify_members [(k, v)]) + 1 \<le> f"
    then obtain f' where f: "f = Suc f'" "2 * length (JSON_stringify v) \<le> f'"
      by (cases f) auto
    from 12 s f(2) have "parse_value f' (JSON_stringify v @ 125 # rest) = Some (v, 125 # rest)"
      by simp
    from parse_members_last [OF this, of k]
    show "parse_members f (stringify_members [(k, v)] @ 125 # rest) = Some ([(k, v)], rest)"
      by (simp add: f)
  qed
next
  case (13 k v kv kvs)
  show ?case
  proof (intro allI impI)
    fix f rest assume s: "\<forall>w \<in> set (map snd ((k, v) # kv # kvs)). serializable w"
      and a: "2 * length (stringify_members ((k, v) # kv # kvs)) + 1 \<le> f"
    then obtain f' where f: "f = Suc f'" "2 * length (JSON_stringify v) \<le> f'"
      "2 * length (stringify_members (kv # kvs)) + 1 \<le> f'"
      by (cases f) auto
    let ?later = "stringify_members (kv # kvs) @ 125 # rest"
    from 13(1) s f(2)
    have v: "parse_value f' (JSON_stringify v @ 44 # ?later) = Some (v, 44 # ?later)"
      by simp
    from 13(2) s f(3) have m: "parse_members f' ?later = Some (kv # kvs, rest)" by simp
    from parse_members_more [OF v m, of k]
    show "parse_members f (stringify_members ((k, v) # kv # kvs) @ 125 # rest) =
        Some ((k, v) # kv # kvs, rest)"
      by (simp add: f)
  qed
qed

lemma JSON_parse_stringify:
  assumes "serializable v"
  shows "JSON_parse (JSON_stringify v) = Inr v"
proof -
  define t where "t = JSON_stringify v"
  have c: "closes []" by simp
  have l: "2 * length t \<le> 2 * length t + 2" by simp
  from parse_stringify(1) [of v] assms c l
  have "parse_value (2 * length t + 2) (t @ []) = Some (v, [])"
    unfolding t_def by blast
  then have "parse_value (2 * length t + 2) t = Some (v, [])"
    by (simp only: append_Nil2)
  then have "JSON_parse t = Inr v"
    by (simp only: JSON_parse_def option.case prod.case skip_ws_def dropWhile.simps refl if_True)
  then show ?thesis by (simp only: t_def)
qed

lemma btoa_bytes:
  assumes "\<forall>c \<in> set t. c < 256"
  shows "btoa t = Inr (b64_encode t)"
proof -
  from assms have "\<not> (\<exists>c \<in> set t. 255 < c)" by auto
  then show ?thesis by (simp only: btoa_def if_False)
qed

lemma serializable_tick: "serializable tick_offer"
  by (simp add: tick_offer_def enumeration_order_def precedes_def array_index_def js_def
      is_digit_def to_double_half)

lemma tick_text:
  "JSON_stringify tick_offer =
     [123, 34, 116, 121, 112, 101, 34, 58, 34, 111, 102, 102, 101, 114, 34, 44,
      34, 115, 100, 112, 34, 58, 34, 118, 61, 48, 34, 44,
      34, 116, 34, 58, 48, 46, 53, 125]"
  by (simp add: tick_offer_def quote_def json_escape_def is_high_surrogate_def
      is_low_surrogate_def js_def number_half)

lemma round_trip_nonfinite:
  "round_trip (JNonFinite n) = Inr JNull" "round_trip_urlsafe (JNonFinite n) = Inr JNull"
proof -
  let ?t = "js ''null''"
  have bytes: "\<forall>c \<in> set ?t. c < 256" by (simp add: js_def)
  have enc: "encodeSdp (JNonFinite n) = Inr (b64_encode ?t)"
    unfolding encodeSdp_def JSON_stringify.simps by (rule btoa_bytes [OF bytes])
  have p: "JSON_parse ?t = Inr JNull" using JSON_parse_stringify [of JNull] by simp
  have "decodeSdp_try (Json (JStr (b64_encode ?t))) = Inr JNull"
    by (simp only: decodeSdp_try_encoded [OF bytes] p)
  then have direct: "decodeSdp (Json (JStr (b64_encode ?t))) = Inr JNull"
    by (simp add: decodeSdp_def)
  have "decodeSdp_try (Json (JStr (to_base64url (b64_encode ?t)))) = Inr JNull"
    by (simp only: decodeSdp_try_urlsafe [OF bytes] p)
  then have urlsafe: "decodeSdp (Json (JStr (to_base64url (b64_encode ?t)))) = Inr JNull"
    by (simp add: decodeSdp_def)
  show "round_trip (JNonFinite n) = Inr JNull" by (simp add: round_trip_def enc direct)
  show "round_trip_urlsafe (JNonFinite n) = Inr JNull"
    by (simp add: round_trip_urlsafe_def enc urlsafe)
qed

text \<open>
  C1, as stated, at a description that holds the character U+20AC: \<open>JSON.stringify\<close>
  keeps the character, \<open>btoa\<close> throws on it, and \<open>encodeSdp\<close> has no handler, so
  there is no encoded text to decode. And at the number NaN, which \<open>JSON.stringify\<close>
  writes as \<open>null\<close>: what comes back is \<open>null\<close>.
\<close>

theorem round_trip_euro_counterexample:
  "round_trip euro_offer = Inl InvalidCharacterError \<and>
   round_trip_urlsafe euro_offer = Inl InvalidCharacterError \<and>
   round_trip (JNonFinite NaN) = Inr JNull"
  by (simp add: round_trip_def round_trip_urlsafe_def encodeSdp_euro
      round_trip_nonfinite [unfolded round_trip_def])

text \<open>
  C1, amended: for every JSON-serializable value, one whose numbers are all finite, when
  its JSON text holds only code units below 256, \<open>decodeSdp (encodeSdp x)\<close> is \<open>x\<close>, and
  it is still \<open>x\<close> when \<open>+\<close> is replaced by \<open>-\<close>, \<open>/\<close> by \<open>_\<close> and the padding is
  stripped from the encoded text before it is decoded. For every value whose JSON text
  holds a code unit above 255, \<open>encodeSdp\<close> throws \<open>InvalidCharacterError\<close>. And what
  comes back for NaN, Infinity and -Infinity is \<open>null\<close>.
\<close>

theorem round_trip_latin1:
  "(serializable x \<and> (\<forall>c \<in> set (JSON_stringify x). c < 256) \<longrightarrow>
      round_trip x = Inr x \<and> round_trip_urlsafe x = Inr x) \<and>
   ((\<exists>c \<in> set (JSON_stringify x). 255 < c) \<longrightarrow>
      encodeSdp x = Inl InvalidCharacterError \<and>
      round_trip x = Inl InvalidCharacterError \<and>
      round_trip_urlsafe x = Inl InvalidCharacterError) \<and>
   round_trip (JNonFinite n) = Inr JNull \<and> round_trip_urlsafe (JNonFinite n) = Inr JNull"
proof (intro conjI impI)
  show "round_trip (JNonFinite n) = Inr JNull" "round_trip_urlsafe (JNonFinite n) = Inr JNull"
    by (rule round_trip_nonfinite)+
next
  let ?t = "JSON_stringify x"
  assume "\<exists>c \<in> set ?t. 255 < c"
  then show e: "encodeSdp x = Inl InvalidCharacterError"
    by (simp only: encodeSdp_def btoa_def if_True)
  then show "round_trip x = Inl InvalidCharacterError"
    "round_trip_urlsafe x = Inl InvalidCharacterError"
    by (simp_all add: round_trip_def round_trip_urlsafe_def)
next
  let ?t = "JSON_stringify x"
  assume a: "serializable x \<and> (\<forall>c \<in> set ?t. c < 256)"
  then have s: "serializable x" and bytes: "\<forall>c \<in> set ?t. c < 256" by simp_all
  have enc: "encodeSdp x = Inr (b64_encode ?t)"
    unfolding encodeSdp_def by (rule btoa_bytes [OF bytes])
  have "decodeSdp_try (Json (JStr (b64_encode ?t))) = Inr x"
    by (simp only: decodeSdp_try_encoded [OF bytes] JSON_parse_stringify [OF s])
  then have direct: "decodeSdp (Json (JStr (b64_encode ?t))) = Inr x"
    by (simp add: decodeSdp_def)
  have "decodeSdp_try (Json (JStr (to_base64url (b64_encode ?t)))) = Inr x"
    by (simp only: decodeSdp_try_urlsafe [OF bytes] JSON_parse_stringify [OF s])
  then have urlsafe: "decodeSdp (Json (JStr (to_base64url (b64_encode ?t)))) = Inr x"
    by (simp add: decodeSdp_def)
  show "round_trip x = Inr x" by (simp add: round_trip_def enc direct)
  show "round_trip_urlsafe x = Inr x" by (simp add: round_trip_urlsafe_def enc urlsafe)
qed

theorem round_trip_latin1_witness:
  "round_trip tick_offer = Inr tick_offer \<and> round_trip_urlsafe tick_offer = Inr tick_offer \<and>
   encodeSdp euro_offer = Inl InvalidCharacterError \<and>
   round_trip euro_offer = Inl InvalidCharacterError \<and>
   round_trip (JNonFinite PosInfinity) = Inr JNull"
proof -
  have bytes: "\<forall>c \<in> set (JSON_stringify tick_offer). c < 256"
    unfolding tick_text by simp
  have high: "\<exists>c \<in> set (JSON_stringify euro_offer). 255 < c"
    using euro_text by (intro bexI [of _ 8364]) simp_all
  from serializable_tick bytes high round_trip_latin1 [of tick_offer PosInfinity]
    round_trip_latin1 [of euro_offer PosInfinity]
  show ?thesis by blast
qed

end
